theory Spec2Isabelle
  imports Main "HOL-Library.Sublist"
begin

section \<open>Strings, bytes and errors\<close>

text \<open>
  The script \<^verbatim>\<open>scripts/tpch/generate_dists_embedded.py\<close> works on Python \<^verbatim>\<open>str\<close> values
  (sequences of Unicode code points) and on \<^verbatim>\<open>bytes\<close>. A code point is a natural number,
  a \<^verbatim>\<open>str\<close> is a list of code points, a byte is an Isabelle \<^typ>\<open>char\<close> (exactly the
  values 0..255). \<open>lit\<close> turns an ASCII literal of the source into a \<^verbatim>\<open>str\<close>.
\<close>

type_synonym codepoint = nat
type_synonym str = "codepoint list"
type_synonym bytes = "char list"

definition lit :: "string \<Rightarrow> str" where
  "lit s = map of_char s"

abbreviation (input) LF :: codepoint where
  "LF \<equiv> 10"

abbreviation (input) CR :: codepoint where
  "CR \<equiv> 13"

datatype error = FileNotFoundError | UnicodeDecodeError | UnicodeEncodeError

section \<open>The library operations the script calls\<close>

subsection \<open>\<^verbatim>\<open>str.replace\<close>, \<^verbatim>\<open>str.endswith\<close>, \<^verbatim>\<open>in\<close>, \<^verbatim>\<open>str(int)\<close>\<close>

text \<open>
  \<^verbatim>\<open>s.replace(old, new)\<close> scans \<open>s\<close> from the left and replaces every non-overlapping
  occurrence of \<open>old\<close>. With an empty \<open>old\<close> Python inserts \<open>new\<close> before every character
  and at the end. \<^verbatim>\<open>needle in s\<close> on strings is the contiguous-sublist test
  \<^const>\<open>sublist\<close>, \<^verbatim>\<open>s.endswith(t)\<close> is \<^const>\<open>suffix\<close>.
\<close>

function str_replace_from :: "'a list \<Rightarrow> 'a list \<Rightarrow> 'a list \<Rightarrow> 'a list" where
  "str_replace_from old new [] = []"
| "str_replace_from old new (c # cs) =
     (if old \<noteq> [] \<and> prefix old (c # cs)
      then new @ str_replace_from old new (drop (length old) (c # cs))
      else c # str_replace_from old new cs)"
  by pat_completeness auto
termination
  by (relation "measure (\<lambda>(old, new, s). length s)") auto

definition str_replace :: "'a list \<Rightarrow> 'a list \<Rightarrow> 'a list \<Rightarrow> 'a list" where
  "str_replace old new s =
     (if old = [] then new @ concat (map (\<lambda>c. c # new) s) else str_replace_from old new s)"

definition endswith :: "'a list \<Rightarrow> 'a list \<Rightarrow> bool" where
  "endswith s t = suffix t s"

text \<open>The decimal text of a non-negative integer, as \<^verbatim>\<open>f"{index}"\<close> prints it.\<close>

function str_of_nat :: "nat \<Rightarrow> str" where
  "str_of_nat n = (if n < 10 then [48 + n] else str_of_nat (n div 10) @ [48 + n mod 10])"
  by pat_completeness auto
termination
  by (relation "measure id") auto

declare str_of_nat.simps [simp del]

subsection \<open>Decoding and encoding\<close>

text \<open>
  \<^verbatim>\<open>decode("utf-8")\<close> is strict: it accepts exactly the well-formed byte sequences
  (no overlong forms, no surrogates, nothing above U+10FFFF) and raises
  \<^verbatim>\<open>UnicodeDecodeError\<close> on anything else. \<open>decode_tail n acc lo hi\<close> reads the \<open>n\<close> bytes that
  follow a lead byte; the first of them has to lie in \<open>lo..hi\<close>, the others in \<open>0x80..0xBF\<close>.
\<close>

fun decode_tail :: "nat \<Rightarrow> codepoint \<Rightarrow> nat \<Rightarrow> nat \<Rightarrow> bytes \<Rightarrow> (codepoint \<times> bytes) option" where
  "decode_tail 0 acc lo hi r = Some (acc, r)"
| "decode_tail (Suc n) acc lo hi [] = None"
| "decode_tail (Suc n) acc lo hi (c # r) =
     (let b = of_char c :: nat in
      if lo \<le> b \<and> b \<le> hi then decode_tail n (acc * 64 + (b - 0x80)) 0x80 0xBF r else None)"

fun decode_first :: "bytes \<Rightarrow> (codepoint \<times> bytes) option" where
  "decode_first [] = None"
| "decode_first (c0 # r) =
     (let b0 = of_char c0 :: nat in
      if b0 < 0x80 then Some (b0, r)
      else if 0xC2 \<le> b0 \<and> b0 \<le> 0xDF then decode_tail 1 (b0 - 0xC0) 0x80 0xBF r
      else if 0xE0 \<le> b0 \<and> b0 \<le> 0xEF then
        decode_tail 2 (b0 - 0xE0)
          (if b0 = 0xE0 then 0xA0 else 0x80) (if b0 = 0xED then 0x9F else 0xBF) r
      else if 0xF0 \<le> b0 \<and> b0 \<le> 0xF4 then
        decode_tail 3 (b0 - 0xF0)
          (if b0 = 0xF0 then 0x90 else 0x80) (if b0 = 0xF4 then 0x8F else 0xBF) r
      else None)"

lemma decode_tail_length:
  "decode_tail n acc lo hi r = Some (c, r') \<Longrightarrow> length r' \<le> length r"
  by (induction n acc lo hi r rule: decode_tail.induct) (auto simp: Let_def split: if_splits)

lemma decode_first_shorter: "decode_first bs = Some (c, r) \<Longrightarrow> length r < length bs"
  by (cases bs) (auto simp: Let_def less_Suc_eq_le split: if_splits dest: decode_tail_length)

function decode_utf8 :: "bytes \<Rightarrow> error + str" where
  "decode_utf8 bs =
     (if bs = [] then Inr []
      else case decode_first bs of
             None \<Rightarrow> Inl UnicodeDecodeError
           | Some (c, r) \<Rightarrow> (case decode_utf8 r of Inl e \<Rightarrow> Inl e | Inr s \<Rightarrow> Inr (c # s)))"
  by pat_completeness auto
termination
  by (relation "measure length") (auto dest: decode_first_shorter)

declare decode_utf8.simps [simp del]

text \<open>\<^verbatim>\<open>decode("latin-1")\<close> maps every byte to the code point of the same value.\<close>

definition decode_latin1 :: "bytes \<Rightarrow> str" where
  "decode_latin1 bs = map of_char bs"

text \<open>
  Writing with \<^verbatim>\<open>encoding="utf-8"\<close> encodes every code point but the surrogates
  U+D800..U+DFFF, on which it raises \<^verbatim>\<open>UnicodeEncodeError\<close>. A number above U+10FFFF is
  no code point of a Python string; \<open>encode_utf8\<close> refuses it in the same way.
\<close>

definition encodable :: "codepoint \<Rightarrow> bool" where
  "encodable c = (c < 0xD800 \<or> (0xDFFF < c \<and> c \<le> 0x10FFFF))"

definition encode_cp :: "codepoint \<Rightarrow> bytes" where
  "encode_cp c =
     (if c < 0x80 then [char_of c]
      else if c < 0x800 then [char_of (0xC0 + c div 64), char_of (0x80 + c mod 64)]
      else if c < 0x10000 then
        [char_of (0xE0 + c div 4096), char_of (0x80 + c div 64 mod 64), char_of (0x80 + c mod 64)]
      else
        [char_of (0xF0 + c div 262144), char_of (0x80 + c div 4096 mod 64),
         char_of (0x80 + c div 64 mod 64), char_of (0x80 + c mod 64)])"

definition utf8 :: "str \<Rightarrow> bytes" where
  "utf8 s = concat (map encode_cp s)"

definition encode_utf8 :: "str \<Rightarrow> error + bytes" where
  "encode_utf8 s = (if list_all encodable s then Inr (utf8 s) else Inl UnicodeEncodeError)"

section \<open>\<^verbatim>\<open>choose_delimiter\<close>\<close>

text \<open>
  Lines 27--36. The \<^verbatim>\<open>while True\<close> loop has no bound in the source, so it is a partial
  function: \<open>None\<close> stands for a loop that never returns. \<open>index\<close> starts at 1 and is only
  incremented, so it is a natural number.
\<close>

partial_function (option) choose_delimiter_loop :: "str \<Rightarrow> str \<Rightarrow> nat \<Rightarrow> str option" where
  "choose_delimiter_loop data base index =
     (let delimiter = base @ lit ''_'' @ str_of_nat index in
      if \<not> sublist (lit '')'' @ delimiter) data then Some delimiter
      else choose_delimiter_loop data base (index + 1))"

declare choose_delimiter_loop.simps [code]

definition choose_delimiter :: "str \<Rightarrow> str \<Rightarrow> str option" where
  "choose_delimiter data base =
     (let delimiter = base in
      if \<not> sublist (lit '')'' @ delimiter) data then Some delimiter
      else choose_delimiter_loop data base 1)"

section \<open>\<^verbatim>\<open>main\<close>\<close>

text \<open>
  The file system is a map from path strings to file contents. Directory creation and
  permission failures are outside the model: a write to any path succeeds.
\<close>

type_synonym fs = "str \<rightharpoonup> bytes"

record args =
  args_input :: str
  args_output :: str
  args_label :: "str option"

text \<open>
  \<^verbatim>\<open>Path.read_text(encoding="utf-8")\<close> opens the file in text mode with universal newlines:
  after decoding, \<^verbatim>\<open>\r\n\<close> and \<^verbatim>\<open>\r\<close> are already translated to \<^verbatim>\<open>\n\<close>.
  \<^verbatim>\<open>Path.read_bytes()\<close> returns the raw bytes.
\<close>

definition universal_newlines :: "str \<Rightarrow> str" where
  "universal_newlines s = str_replace [CR] [LF] (str_replace [CR, LF] [LF] s)"

definition read_text_utf8 :: "fs \<Rightarrow> str \<Rightarrow> error + str" where
  "read_text_utf8 files p =
     (case files p of
        None \<Rightarrow> Inl FileNotFoundError
      | Some raw \<Rightarrow> (case decode_utf8 raw of Inl e \<Rightarrow> Inl e | Inr s \<Rightarrow> Inr (universal_newlines s)))"

definition read_bytes :: "fs \<Rightarrow> str \<Rightarrow> error + bytes" where
  "read_bytes files p = (case files p of None \<Rightarrow> Inl FileNotFoundError | Some raw \<Rightarrow> Inr raw)"

text \<open>Lines 54--57: only \<^verbatim>\<open>UnicodeDecodeError\<close> is caught.\<close>

definition read_data :: "fs \<Rightarrow> str \<Rightarrow> error + str" where
  "read_data files p =
     (case read_text_utf8 files p of
        Inr s \<Rightarrow> Inr s
      | Inl e \<Rightarrow>
          if e = UnicodeDecodeError
          then (case read_bytes files p of Inl e' \<Rightarrow> Inl e' | Inr raw \<Rightarrow> Inr (decode_latin1 raw))
          else Inl e)"

text \<open>Lines 59--61.\<close>

definition normalize :: "str \<Rightarrow> str" where
  "normalize data0 =
     (let data = str_replace [CR] [LF] (str_replace [CR, LF] [LF] data0) in
      if \<not> endswith data [LF] then data @ [LF] else data)"

text \<open>Lines 66--75: the template.\<close>

definition render :: "str \<Rightarrow> str \<Rightarrow> str \<Rightarrow> str" where
  "render label delimiter data =
     lit ''/* Auto-generated from '' @ label @ lit ''. */\<newline>''
     @ lit ''#include <cstddef>\<newline>\<newline>''
     @ lit ''extern \"C\" {\<newline>''
     @ lit ''extern const char tpch_dists_data[] = R\"'' @ delimiter @ lit ''(\<newline>''
     @ data
     @ lit '')'' @ delimiter @ lit ''\";\<newline>''
     @ lit ''extern const size_t tpch_dists_size = sizeof(tpch_dists_data) - 1;\<newline>''
     @ lit ''}  // extern \"C\"\<newline>''"

text \<open>Line 64: an absent or empty \<^verbatim>\<open>--label\<close> is replaced by the input path as given.\<close>

definition label_of :: "args \<Rightarrow> str" where
  "label_of a =
     (case args_label a of
        None \<Rightarrow> args_input a
      | Some l \<Rightarrow> if l \<noteq> [] then l else args_input a)"

text \<open>
  Lines 51--79. The result is \<open>None\<close> when the delimiter loop does not return, an error when
  an exception leaves \<^verbatim>\<open>main\<close>, and otherwise the file system after the write (the exit
  code is 0 then).
\<close>

definition main :: "args \<Rightarrow> fs \<Rightarrow> (error + fs) option" where
  "main a files =
     (case read_data files (args_input a) of
        Inl e \<Rightarrow> Some (Inl e)
      | Inr data0 \<Rightarrow>
          (let data = normalize data0 in
           case choose_delimiter data (lit ''TPCH_DISTS'') of
             None \<Rightarrow> None
           | Some delimiter \<Rightarrow>
               (let label = label_of a;
                    output = render label delimiter data
                in case encode_utf8 output of
                     Inl e \<Rightarrow> Some (Inl e)
                   | Inr written \<Rightarrow> Some (Inr (files(args_output a \<mapsto> written))))))"

text \<open>
  What lines 54--57 leave in \<^verbatim>\<open>data\<close> for a readable file with the bytes \<open>raw\<close>, and the
  normalized content that lines 59--61 make of it.
\<close>

definition decode_input :: "bytes \<Rightarrow> str" where
  "decode_input raw =
     (case decode_utf8 raw of Inr s \<Rightarrow> universal_newlines s | Inl e \<Rightarrow> decode_latin1 raw)"

definition content :: "bytes \<Rightarrow> str" where
  "content raw = normalize (decode_input raw)"

text \<open>The bytes of the output file after a run that returned, if there was one.\<close>

definition generated :: "args \<Rightarrow> fs \<Rightarrow> bytes option" where
  "generated a files =
     (case main a files of
        Some (Inr files') \<Rightarrow> files' (args_output a)
      | _ \<Rightarrow> None)"

section \<open>Reading the generated unit\<close>

text \<open>
  \<open>find_sub needle s\<close> is the index of the first occurrence of \<open>needle\<close> in \<open>s\<close>.
  \<open>raw_literal\<close> is the textual span between markers: it returns the delimiter \<open>D\<close> of the
  first opening marker \<^verbatim>\<open>R"D(\<close> of a text and the bytes between that marker and the first
  closing marker \<^verbatim>\<open>)D"\<close> behind it.
\<close>

fun find_sub :: "'a list \<Rightarrow> 'a list \<Rightarrow> nat option" where
  "find_sub needle [] = (if needle = [] then Some 0 else None)"
| "find_sub needle (x # xs) =
     (if prefix needle (x # xs) then Some 0 else map_option Suc (find_sub needle xs))"

definition raw_literal :: "bytes \<Rightarrow> (bytes \<times> bytes) option" where
  "raw_literal unit =
     (case find_sub ''R\"'' unit of
        None \<Rightarrow> None
      | Some i \<Rightarrow>
          (let after = drop (i + 2) unit in
           case find_sub ''('' after of
             None \<Rightarrow> None
           | Some j \<Rightarrow>
               (let d = take j after; rest = drop (j + 1) after in
                case find_sub ('')'' @ d @ ''\"'') rest of
                  None \<Rightarrow> None
                | Some k \<Rightarrow> Some (d, take k rest))))"

text \<open>
  The template of lines 66--75 as bytes: what it writes in front of the opening marker
  \<^verbatim>\<open>R"\<close>, what it writes behind the closing quote, and the part of the former that follows
  the header comment (lines 68--70 up to and with \<^verbatim>\<open>R"\<close>).
\<close>

definition header_bytes :: "str \<Rightarrow> bytes" where
  "header_bytes label =
     ''/* Auto-generated from '' @ utf8 label
     @ ''. */\<newline>#include <cstddef>\<newline>\<newline>extern \"C\" {\<newline>extern const char tpch_dists_data[] = ''"

definition trailer_bytes :: bytes where
  "trailer_bytes =
     '';\<newline>extern const size_t tpch_dists_size = sizeof(tpch_dists_data) - 1;\<newline>}  // extern \"C\"\<newline>''"

definition declaration_bytes :: bytes where
  "declaration_bytes =
     ''\<newline>#include <cstddef>\<newline>\<newline>extern \"C\" {\<newline>extern const char tpch_dists_data[] = R\"''"

text \<open>
  The generated file is C++ source, and the two symbols have the values a compiler gives
  them. \<open>read_unit\<close> reads a unit of the template's form as a compiler does:
  \<^item> the unit opens with a block comment. Before comments are recognised, every backslash
    that a line end follows is deleted together with that line end (\<open>skip_splices\<close>; a
    line end is \<^verbatim>\<open>\n\<close> or \<^verbatim>\<open>\r\<close>), so the comment ends at the first \<^verbatim>\<open>*\<close> that a \<^verbatim>\<open>/\<close>
    follows, with nothing or only such pairs between them (\<open>comment_end\<close>);
  \<^item> behind the comment stand the directive and the declarations of lines 68--70, up to
    the \<^verbatim>\<open>R"\<close> that opens a raw string literal;
  \<^item> the delimiter of the literal runs up to the first \<^verbatim>\<open>(\<close>; it has at most 16
    characters, each a character of the basic source character set other than space,
    parentheses, backslash and the control characters (\<open>d_char\<close>);
  \<^item> the value of the literal is the bytes up to the first \<^verbatim>\<open>)D"\<close>, taken as they are
    (inside a raw string literal nothing is deleted or replaced, and the bytes of the
    source are the bytes of the array);
  \<^item> behind the literal stand lines 72--74, with the size line
    \<^verbatim>\<open>tpch_dists_size = sizeof(tpch_dists_data) - 1\<close>.
  The result is the value of the literal. It is \<open>None\<close> for a unit that is not of this form:
  a compiler rejects such a unit, or the unit is not one the template can be seen in.
  The array \<^verbatim>\<open>tpch_dists_data\<close> is initialised from the literal and gets one more byte, the
  terminating NUL, which \<^verbatim>\<open>sizeof\<close> counts; the size symbol is what the size line says.
\<close>

fun skip_splices :: "bytes \<Rightarrow> bytes" where
  "skip_splices (a # b # s) =
     (if a = CHR 0x5C \<and> (b = CHR 0x0A \<or> b = CHR 0x0D) then skip_splices s else a # b # s)"
| "skip_splices s = s"

fun comment_end :: "bytes \<Rightarrow> bytes option" where
  "comment_end [] = None"
| "comment_end (c # s) =
     (if c = CHR ''*'' \<and> prefix ''/'' (skip_splices s)
      then Some (drop 1 (skip_splices s))
      else comment_end s)"

definition skip_comment :: "bytes \<Rightarrow> bytes option" where
  "skip_comment unit = (if prefix ''/*'' unit then comment_end (drop 2 unit) else None)"

definition strip_prefix :: "bytes \<Rightarrow> bytes \<Rightarrow> bytes option" where
  "strip_prefix p s = (if prefix p s then Some (drop (length p) s) else None)"

definition d_char :: "char \<Rightarrow> bool" where
  "d_char c =
     (let n = of_char c :: nat in
      0x21 \<le> n \<and> n \<le> 0x7E
      \<and> n \<noteq> 0x28 \<and> n \<noteq> 0x29 \<and> n \<noteq> 0x5C \<and> n \<noteq> 0x24 \<and> n \<noteq> 0x40 \<and> n \<noteq> 0x60)"

definition read_unit :: "bytes \<Rightarrow> bytes option" where
  "read_unit unit =
     (case skip_comment unit of
        None \<Rightarrow> None
      | Some code \<Rightarrow>
          (case strip_prefix declaration_bytes code of
             None \<Rightarrow> None
           | Some literal \<Rightarrow>
               (case find_sub ''('' literal of
                  None \<Rightarrow> None
                | Some j \<Rightarrow>
                    (let d = take j literal; rest = drop (j + 1) literal in
                     if length d \<le> 16 \<and> list_all d_char d
                     then (case find_sub ('')'' @ d @ ''\"'') rest of
                             None \<Rightarrow> None
                           | Some k \<Rightarrow>
                               if drop (k + length d + 2) rest = trailer_bytes
                               then Some (take k rest) else None)
                     else None))))"

definition tpch_dists_data :: "bytes \<Rightarrow> bytes option" where
  "tpch_dists_data unit = read_unit unit"

definition sizeof_tpch_dists_data :: "bytes \<Rightarrow> nat option" where
  "sizeof_tpch_dists_data unit = map_option (\<lambda>v. length v + 1) (tpch_dists_data unit)"

definition tpch_dists_size :: "bytes \<Rightarrow> nat option" where
  "tpch_dists_size unit = map_option (\<lambda>n. n - 1) (sizeof_tpch_dists_data unit)"

text \<open>
  The characters of the delimiters that \<open>choose_delimiter\<close> can return for the base
  \<^verbatim>\<open>TPCH_DISTS\<close>: those of the base, the underscore and the decimal digits.
\<close>

definition delimiter_chars :: "codepoint set" where
  "delimiter_chars = set (lit ''TPCH_DISTS_'') \<union> {c. 48 \<le> c \<and> c \<le> 57}"

text \<open>
  An input on which the candidates with the suffixes 1 to \<open>n\<close> all collide: it holds
  \<^verbatim>\<open>)TPCH_DISTS_1\<close>, \<^verbatim>\<open>)TPCH_DISTS_2\<close>, and so on up to \<open>n\<close>, one behind the other. The base
  collides too, as \<^verbatim>\<open>)TPCH_DISTS_1\<close> begins with \<^verbatim>\<open>)TPCH_DISTS\<close>.
\<close>

fun collisions :: "nat \<Rightarrow> str" where
  "collisions 0 = []"
| "collisions (Suc n) =
     collisions n @ lit '')'' @ lit ''TPCH_DISTS'' @ lit ''_'' @ str_of_nat (Suc n)"

section \<open>Properties of the string operations\<close>

subsection \<open>Replacement and normalization\<close>

lemma str_replace_from_no_old:
  "old = [] \<or> hd old \<notin> set s \<Longrightarrow> str_replace_from old new s = s"
proof (induction s)
  case Nil
  then show ?case by simp
next
  case (Cons c cs)
  have "\<not> (old \<noteq> [] \<and> prefix old (c # cs))"
  proof
    assume h: "old \<noteq> [] \<and> prefix old (c # cs)"
    then obtain o1 os where "old = o1 # os" by (cases old) auto
    with h Cons.prems show False by auto
  qed
  with Cons show ?case by auto
qed

lemma str_replace_from_removes:
  "x \<notin> set new \<Longrightarrow> x \<notin> set (str_replace_from [x] new s)"
  by (induction s) auto

lemma str_replace_no_old:
  "old \<noteq> [] \<Longrightarrow> hd old \<notin> set s \<Longrightarrow> str_replace old new s = s"
  by (simp add: str_replace_def str_replace_from_no_old)

lemma str_replace_removes:
  "x \<notin> set new \<Longrightarrow> x \<notin> set (str_replace [x] new s)"
  by (simp add: str_replace_def str_replace_from_removes)

lemma normalize_no_CR: "CR \<notin> set (normalize s)"
  using str_replace_removes [of CR "[LF]" "str_replace [CR, LF] [LF] s"]
  by (simp add: normalize_def Let_def)

lemma normalize_endswith: "endswith (normalize s) [LF]"
  by (simp add: normalize_def Let_def endswith_def)

lemma normalize_fixed:
  assumes "CR \<notin> set s" and "endswith s [LF]"
  shows "normalize s = s"
  using assms by (simp add: normalize_def Let_def str_replace_no_old)

subsection \<open>Decimal numerals\<close>

lemma str_of_nat_nonempty: "str_of_nat n \<noteq> []"
  by (subst str_of_nat.simps) simp

lemma str_of_nat_digits: "c \<in> set (str_of_nat n) \<Longrightarrow> 48 \<le> c \<and> c \<le> 57"
proof (induction n rule: str_of_nat.induct)
  case (1 n)
  show ?case
  proof (cases "n < 10")
    case True
    with "1.prems" show ?thesis by (subst (asm) str_of_nat.simps) simp
  next
    case False
    from "1.prems" False have "c \<in> set (str_of_nat (n div 10)) \<or> c = 48 + n mod 10"
      by (subst (asm) str_of_nat.simps) auto
    with "1.IH" False show ?thesis by auto
  qed
qed

lemma str_of_nat_long: "10 ^ k \<le> n \<Longrightarrow> k < length (str_of_nat n)"
proof (induction k arbitrary: n)
  case 0
  then show ?case using str_of_nat_nonempty [of n] by (cases "str_of_nat n") auto
next
  case (Suc k)
  have a: "(10::nat) \<le> 10 * 10 ^ k" by simp
  from Suc.prems have b: "(10::nat) * 10 ^ k \<le> n" by simp
  from a b have "10 \<le> n" by (rule order_trans)
  then have ge: "\<not> n < 10" by simp
  from Suc.prems have "10 ^ k \<le> n div 10"
    by (simp add: less_eq_div_iff_mult_less_eq mult.commute)
  with ge Suc.IH [of "n div 10"] show ?case
    by (subst str_of_nat.simps) simp
qed

lemma str_of_nat_inj: "str_of_nat m = str_of_nat n \<Longrightarrow> m = n"
proof (induction m arbitrary: n rule: str_of_nat.induct)
  case (1 m)
  show ?case
  proof (cases "m < 10")
    case m: True
    show ?thesis
    proof (cases "n < 10")
      case True
      with m "1.prems" show ?thesis
        by (simp add: str_of_nat.simps [of m] str_of_nat.simps [of n])
    next
      case False
      with m "1.prems" str_of_nat_nonempty [of "n div 10"] show ?thesis
        by (simp add: str_of_nat.simps [of m] str_of_nat.simps [of n])
    qed
  next
    case m: False
    show ?thesis
    proof (cases "n < 10")
      case True
      with m "1.prems" str_of_nat_nonempty [of "m div 10"] show ?thesis
        by (simp add: str_of_nat.simps [of m] str_of_nat.simps [of n])
    next
      case False
      with m "1.prems" have eq: "str_of_nat (m div 10) = str_of_nat (n div 10)"
        and md: "m mod 10 = n mod 10"
        by (simp_all add: str_of_nat.simps [of m] str_of_nat.simps [of n])
      from "1.IH" [OF m eq] have "m div 10 = n div 10" .
      with md show ?thesis by (metis div_mult_mod_eq)
    qed
  qed
qed

subsection \<open>The delimiter loop\<close>

lemma loop_step_found:
  "\<not> sublist (lit '')'' @ base @ lit ''_'' @ str_of_nat i) data \<Longrightarrow>
   choose_delimiter_loop data base i = Some (base @ lit ''_'' @ str_of_nat i)"
  by (subst choose_delimiter_loop.simps) (simp add: Let_def)

lemma loop_step_collide:
  "sublist (lit '')'' @ base @ lit ''_'' @ str_of_nat i) data \<Longrightarrow>
   choose_delimiter_loop data base i = choose_delimiter_loop data base (Suc i)"
  by (subst choose_delimiter_loop.simps) (simp add: Let_def)

lemma loop_returns_first:
  assumes "\<not> sublist (lit '')'' @ base @ lit ''_'' @ str_of_nat k) data"
    and "\<forall>j. i \<le> j \<and> j < k \<longrightarrow> sublist (lit '')'' @ base @ lit ''_'' @ str_of_nat j) data"
    and "i \<le> k"
  shows "choose_delimiter_loop data base i = Some (base @ lit ''_'' @ str_of_nat k)"
  using assms
proof (induction "k - i" arbitrary: i)
  case 0
  then have "i = k" by simp
  with "0.prems" show ?case by (simp add: loop_step_found)
next
  case (Suc d)
  then have lt: "i < k" by simp
  with Suc.prems have "sublist (lit '')'' @ base @ lit ''_'' @ str_of_nat i) data" by simp
  then have "choose_delimiter_loop data base i = choose_delimiter_loop data base (Suc i)"
    by (rule loop_step_collide)
  also have "\<dots> = Some (base @ lit ''_'' @ str_of_nat k)"
  proof (rule Suc.hyps(1))
    from Suc.hyps(2) show "d = k - Suc i" by simp
    from Suc.prems show "\<not> sublist (lit '')'' @ base @ lit ''_'' @ str_of_nat k) data" by simp
    from Suc.prems show "\<forall>j. Suc i \<le> j \<and> j < k \<longrightarrow> sublist (lit '')'' @ base @ lit ''_'' @ str_of_nat j) data"
      by simp
    from lt show "Suc i \<le> k" by simp
  qed
  finally show ?case .
qed

lemma free_suffix_exists:
  "\<exists>k. i \<le> k \<and> \<not> sublist (lit '')'' @ base @ lit ''_'' @ str_of_nat k) data"
proof -
  let ?k = "max i (10 ^ length data)"
  have "length data < length (str_of_nat ?k)"
    by (rule str_of_nat_long) simp
  then have "\<not> length (lit '')'' @ base @ lit ''_'' @ str_of_nat ?k) \<le> length data"
    by simp
  then have "\<not> sublist (lit '')'' @ base @ lit ''_'' @ str_of_nat ?k) data"
    using sublist_length_le by blast
  then show ?thesis by (intro exI [of _ ?k]) simp
qed

lemma least_free_suffix:
  "\<exists>k. i \<le> k \<and> \<not> sublist (lit '')'' @ base @ lit ''_'' @ str_of_nat k) data
       \<and> (\<forall>j. i \<le> j \<and> j < k \<longrightarrow> sublist (lit '')'' @ base @ lit ''_'' @ str_of_nat j) data)"
proof -
  let ?P = "\<lambda>k. i \<le> k \<and> \<not> sublist (lit '')'' @ base @ lit ''_'' @ str_of_nat k) data"
  from free_suffix_exists obtain k0 where "?P k0" by blast
  then have "?P (LEAST k. ?P k)" by (rule LeastI)
  moreover have "\<And>j. j < (LEAST k. ?P k) \<Longrightarrow> \<not> ?P j" by (rule not_less_Least)
  ultimately show ?thesis by (intro exI [of _ "LEAST k. ?P k"]) blast
qed

lemma loop_total:
  "\<exists>k. i \<le> k \<and> choose_delimiter_loop data base i = Some (base @ lit ''_'' @ str_of_nat k)
       \<and> \<not> sublist (lit '')'' @ base @ lit ''_'' @ str_of_nat k) data
       \<and> (\<forall>j. i \<le> j \<and> j < k \<longrightarrow> sublist (lit '')'' @ base @ lit ''_'' @ str_of_nat j) data)"
proof -
  from least_free_suffix [of i base data] obtain k where k: "i \<le> k"
    "\<not> sublist (lit '')'' @ base @ lit ''_'' @ str_of_nat k) data"
    "\<forall>j. i \<le> j \<and> j < k \<longrightarrow> sublist (lit '')'' @ base @ lit ''_'' @ str_of_nat j) data"
    by blast
  from loop_returns_first [OF k(2) k(3) k(1)] k show ?thesis by blast
qed

subsection \<open>First occurrences\<close>

lemma find_sub_prefix: "prefix n h \<Longrightarrow> find_sub n h = Some 0"
  by (cases h) auto

lemma find_sub_skip:
  "(\<forall>i<length a. \<not> prefix n (drop i (a @ b))) \<Longrightarrow>
   find_sub n (a @ b) = map_option ((+) (length a)) (find_sub n b)"
proof (induction a)
  case Nil
  show ?case by (simp add: option.map_ident)
next
  case (Cons x a)
  from Cons.prems have "\<not> prefix n (drop 0 ((x # a) @ b))" by blast
  then have np: "\<not> prefix n (x # a @ b)" by simp
  have "\<forall>i<length a. \<not> prefix n (drop i (a @ b))"
  proof (intro allI impI)
    fix i assume "i < length a"
    then have "Suc i < length (x # a)" by simp
    with Cons.prems have "\<not> prefix n (drop (Suc i) ((x # a) @ b))" by blast
    then show "\<not> prefix n (drop i (a @ b))" by simp
  qed
  with Cons.IH have "find_sub n (a @ b) = map_option ((+) (length a)) (find_sub n b)" .
  with np show ?case by (simp add: option.map_comp comp_def)
qed

lemma prefix_drop_cases:
  assumes "prefix n (drop i (a @ b))" and "i < length a"
  shows "sublist n a \<or> (\<exists>us. us \<noteq> [] \<and> n = drop i a @ us \<and> prefix us b)"
proof -
  from assms have "prefix n (drop i a @ b)" by simp
  then consider "prefix n (drop i a)" | us where "n = drop i a @ us" "prefix us b"
    by (auto simp: prefix_append)
  then show ?thesis
  proof cases
    case 1
    then have "sublist n (drop i a)" by (rule prefix_imp_sublist)
    moreover have "sublist (drop i a) a" by simp
    ultimately have "sublist n a" by (rule sublist_order.order_trans)
    then show ?thesis ..
  next
    case 2
    show ?thesis
    proof (cases "us = []")
      case True
      with 2 have "n = drop i a" by simp
      then have "sublist n a" by simp
      then show ?thesis ..
    next
      case False
      with 2 show ?thesis by blast
    qed
  qed
qed

lemma find_sub_skip_first:
  assumes "n \<noteq> []" and "hd n \<notin> set a"
  shows "find_sub n (a @ b) = map_option ((+) (length a)) (find_sub n b)"
proof (rule find_sub_skip, intro allI impI)
  fix i assume i: "i < length a"
  show "\<not> prefix n (drop i (a @ b))"
  proof
    assume "prefix n (drop i (a @ b))"
    with i have p: "prefix n (a ! i # drop (Suc i) a @ b)"
      by (simp add: Cons_nth_drop_Suc [symmetric])
    from assms(1) obtain y ys where "n = y # ys" by (cases n) auto
    with p have "hd n = a ! i" by simp
    with i assms(2) show False by simp
  qed
qed

lemma find_sub_skip_hd:
  assumes "\<not> sublist n a" and "b \<noteq> []" and "hd b \<notin> set n"
  shows "find_sub n (a @ b) = map_option ((+) (length a)) (find_sub n b)"
proof (rule find_sub_skip, intro allI impI)
  fix i assume i: "i < length a"
  show "\<not> prefix n (drop i (a @ b))"
  proof
    assume "prefix n (drop i (a @ b))"
    from prefix_drop_cases [OF this i] assms(1)
    obtain us where us: "us \<noteq> []" "n = drop i a @ us" "prefix us b" by blast
    then have "hd us = hd b" by (cases us; cases b) auto
    moreover from us have "hd us \<in> set n" by (cases us) auto
    ultimately show False using assms(3) by simp
  qed
qed

lemma find_sub_skip_last:
  assumes "\<not> sublist n a" and "a = [] \<or> last a \<notin> set n"
  shows "find_sub n (a @ b) = map_option ((+) (length a)) (find_sub n b)"
proof (rule find_sub_skip, intro allI impI)
  fix i assume i: "i < length a"
  show "\<not> prefix n (drop i (a @ b))"
  proof
    assume "prefix n (drop i (a @ b))"
    from prefix_drop_cases [OF this i] assms(1)
    obtain us where us: "n = drop i a @ us" by blast
    from i have "drop i a \<noteq> []" by simp
    then have "last (drop i a) \<in> set (drop i a)" by (rule last_in_set)
    moreover from i have "last (drop i a) = last a" by simp
    ultimately have "last a \<in> set n" using us by simp
    with i assms(2) show False by auto
  qed
qed

subsection \<open>UTF-8 encoding\<close>

lemma utf8_Nil [simp]: "utf8 [] = []"
  by (simp add: utf8_def)

lemma utf8_Cons: "utf8 (c # s) = encode_cp c @ utf8 s"
  by (simp add: utf8_def)

lemma utf8_append: "utf8 (s @ t) = utf8 s @ utf8 t"
  by (simp add: utf8_def)

lemma encode_cp_ascii: "c < 128 \<Longrightarrow> encode_cp c = [char_of c]"
  by (simp add: encode_cp_def)

lemma byte_val: "x < 256 \<Longrightarrow> of_char (char_of x :: char) = (x::nat)"
  by simp

lemma cont_val: "128 \<le> (of_char (char_of (128 + x mod 64 :: nat) :: char) :: nat)"
proof -
  have "x mod 64 < 64" by simp
  then have "128 + x mod 64 < 256" by linarith
  then have "of_char (char_of (128 + x mod 64) :: char) = 128 + x mod 64" by (rule byte_val)
  then show ?thesis by linarith
qed

lemma lead_val:
  assumes "c < k * d" and "l + k \<le> 256" and "128 \<le> l"
  shows "128 \<le> (of_char (char_of (l + c div d :: nat) :: char) :: nat)"
proof -
  from assms(1) have "c div d < k" by (simp add: less_mult_imp_div_less)
  with assms(2) have "l + c div d < 256" by linarith
  then have "of_char (char_of (l + c div d) :: char) = l + c div d" by (rule byte_val)
  with assms(3) show ?thesis by linarith
qed

lemma encode_cp_2: "128 \<le> c \<Longrightarrow> c < 0x800 \<Longrightarrow>
  encode_cp c = [char_of (0xC0 + c div 64), char_of (0x80 + c mod 64)]"
  by (simp add: encode_cp_def)

lemma encode_cp_3: "0x800 \<le> c \<Longrightarrow> c < 0x10000 \<Longrightarrow>
  encode_cp c = [char_of (0xE0 + c div 4096), char_of (0x80 + c div 64 mod 64), char_of (0x80 + c mod 64)]"
  by (simp add: encode_cp_def)

lemma encode_cp_4: "0x10000 \<le> c \<Longrightarrow>
  encode_cp c = [char_of (0xF0 + c div 262144), char_of (0x80 + c div 4096 mod 64),
         char_of (0x80 + c div 64 mod 64), char_of (0x80 + c mod 64)]"
  by (simp add: encode_cp_def)


lemma encode_cp_high:
  assumes "128 \<le> c" and "c \<le> 0x10FFFF"
  shows "encode_cp c \<noteq> [] \<and> (\<forall>b \<in> set (encode_cp c). 128 \<le> (of_char b :: nat))"
proof -
  consider "c < 0x800" | "0x800 \<le> c" "c < 0x10000" | "0x10000 \<le> c" by linarith
  then show ?thesis
  proof cases
    case 1
    then have "c < 32 * 64" by simp
    then have "128 \<le> (of_char (char_of (0xC0 + c div 64) :: char) :: nat)"
      by (rule lead_val) simp_all
    with encode_cp_2 [OF assms(1) 1] cont_val [of c] show ?thesis by simp
  next
    case 2
    then have "c < 16 * 4096" by simp
    then have "128 \<le> (of_char (char_of (0xE0 + c div 4096) :: char) :: nat)"
      by (rule lead_val) simp_all
    with encode_cp_3 [OF 2] cont_val [of c] cont_val [of "c div 64"] show ?thesis by simp
  next
    case 3
    from assms(2) have "c < 5 * 262144" by simp
    then have "128 \<le> (of_char (char_of (0xF0 + c div 262144) :: char) :: nat)"
      by (rule lead_val) simp_all
    with encode_cp_4 [OF 3] cont_val [of c] cont_val [of "c div 64"] cont_val [of "c div 4096"]
    show ?thesis by simp
  qed
qed

lemma encodable_bound: "encodable c \<Longrightarrow> c \<le> 0x10FFFF"
  by (auto simp: encodable_def)

lemma utf8_ascii: "\<forall>c \<in> set n. c < 128 \<Longrightarrow> utf8 n = map char_of n"
  by (induction n) (simp_all add: utf8_Cons encode_cp_ascii)

lemma utf8_lit: "utf8 (lit s) = s" if "\<forall>b \<in> set s. (of_char b :: nat) < 128"
proof -
  from that have "\<forall>c \<in> set (lit s). c < 128" by (simp add: lit_def)
  then have "utf8 (lit s) = map char_of (lit s)" by (rule utf8_ascii)
  also have "\<dots> = s" by (simp add: lit_def comp_def)
  finally show ?thesis .
qed

lemma prefix_utf8:
  assumes "\<forall>c \<in> set n. c < 128" and "list_all encodable s" and "prefix (utf8 n) (utf8 s)"
  shows "prefix n s"
  using assms
proof (induction n arbitrary: s)
  case Nil
  show ?case by simp
next
  case (Cons c n)
  from Cons.prems(1) have c: "c < 128" by simp
  show ?case
  proof (cases s)
    case Nil
    with Cons.prems(3) c show ?thesis by (simp add: utf8_Cons encode_cp_ascii)
  next
    case (Cons d s')
    show ?thesis
    proof (cases "d < 128")
      case True
      from Cons.prems(3) c True \<open>s = d # s'\<close>
      have "char_of c = (char_of d :: char)" and p: "prefix (utf8 n) (utf8 s')"
        by (simp_all add: utf8_Cons encode_cp_ascii)
      with c True have "c = d" by simp
      moreover from Cons.prems \<open>s = d # s'\<close> p have "prefix n s'"
        by (intro Cons.IH) simp_all
      ultimately show ?thesis using \<open>s = d # s'\<close> by simp
    next
      case False
      from Cons.prems(2) \<open>s = d # s'\<close> have "d \<le> 0x10FFFF" by (simp add: encodable_bound)
      with False encode_cp_high [of d]
      obtain b bs where e: "encode_cp d = b # bs" and b: "128 \<le> (of_char b :: nat)"
        by (cases "encode_cp d") auto
      from Cons.prems(3) c \<open>s = d # s'\<close> e have "char_of c = b"
        by (simp add: utf8_Cons encode_cp_ascii)
      then have "(of_char b :: nat) = c mod 256" by auto
      with c b show ?thesis by simp
    qed
  qed
qed

lemma sublist_skip_set:
  assumes "m \<noteq> []" and "hd m \<notin> set e" and "sublist m (e @ t)"
  shows "sublist m t"
  using assms
proof (induction e)
  case Nil
  then show ?case by simp
next
  case (Cons x e)
  from Cons.prems(1) obtain y ys where m: "m = y # ys" by (cases m) auto
  from Cons.prems(3) have "prefix m (x # e @ t) \<or> sublist m (e @ t)"
    by (simp add: sublist_Cons_right)
  moreover from m Cons.prems(2) have "\<not> prefix m (x # e @ t)" by auto
  ultimately have "sublist m (e @ t)" by blast
  with Cons show ?case by simp
qed

lemma encode_cp_tail_high:
  assumes "c \<le> 0x10FFFF"
  obtains b bs where "encode_cp c = b # bs" and "\<forall>x \<in> set bs. 128 \<le> (of_char x :: nat)"
proof (cases "c < 128")
  case True
  then have "encode_cp c = [char_of c]" by (rule encode_cp_ascii)
  then show ?thesis using that [of "char_of c" "[]"] by simp
next
  case False
  then have "128 \<le> c" by simp
  from encode_cp_high [OF this assms]
  have ne: "encode_cp c \<noteq> []" and hi: "\<forall>b \<in> set (encode_cp c). 128 \<le> (of_char b :: nat)"
    by blast+
  from ne obtain b bs where e: "encode_cp c = b # bs" by (cases "encode_cp c") blast+
  with hi have "\<forall>x \<in> set bs. 128 \<le> (of_char x :: nat)" by simp
  with e show ?thesis by (rule that)
qed

lemma hd_utf8_ascii:
  assumes "n \<noteq> []" and "\<forall>c \<in> set n. c < 128"
  shows "utf8 n \<noteq> [] \<and> (of_char (hd (utf8 n)) :: nat) < 128"
proof -
  from assms(1) obtain c n' where n: "n = c # n'" by (cases n) blast+
  with assms(2) have c: "c < 128" by simp
  then have "encode_cp c = [char_of c]" by (rule encode_cp_ascii)
  with n have un: "utf8 n = char_of c # utf8 n'" by (simp add: utf8_Cons)
  from c have "c < 256" by simp
  then have "(of_char (char_of c :: char) :: nat) = c" by (rule byte_val)
  with un c show ?thesis by simp
qed

lemma sublist_utf8:
  assumes "n \<noteq> []" and "\<forall>c \<in> set n. c < 128" and "list_all encodable s"
    and "sublist (utf8 n) (utf8 s)"
  shows "sublist n s"
  using assms(3,4)
proof (induction s)
  case Nil
  from hd_utf8_ascii [OF assms(1,2)] have "utf8 n \<noteq> []" by blast
  with Nil.prems(2) show ?case by simp
next
  case (Cons d s)
  from hd_utf8_ascii [OF assms(1,2)]
  have ne: "utf8 n \<noteq> []" and lo: "(of_char (hd (utf8 n)) :: nat) < 128" by blast+
  from Cons.prems(1) have d: "d \<le> 0x10FFFF" and s: "list_all encodable s"
    by (simp_all add: encodable_bound)
  from d obtain b bs where e: "encode_cp d = b # bs"
    and bs: "\<forall>x \<in> set bs. 128 \<le> (of_char x :: nat)"
    by (rule encode_cp_tail_high)
  have hd_notin: "hd (utf8 n) \<notin> set bs"
  proof
    assume "hd (utf8 n) \<in> set bs"
    with bs have "128 \<le> (of_char (hd (utf8 n)) :: nat)" by blast
    with lo show False by linarith
  qed
  from e have u: "utf8 (d # s) = b # bs @ utf8 s" by (simp add: utf8_Cons)
  with Cons.prems(2) have "sublist (utf8 n) (b # bs @ utf8 s)" by simp
  then have "prefix (utf8 n) (b # bs @ utf8 s) \<or> sublist (utf8 n) (bs @ utf8 s)"
    by (simp only: sublist_Cons_right)
  then show ?case
  proof
    assume "prefix (utf8 n) (b # bs @ utf8 s)"
    with u have "prefix (utf8 n) (utf8 (d # s))" by simp
    with assms(2) Cons.prems(1) have "prefix n (d # s)" by (rule prefix_utf8)
    then show ?thesis by (rule prefix_imp_sublist)
  next
    assume "sublist (utf8 n) (bs @ utf8 s)"
    with ne hd_notin have "sublist (utf8 n) (utf8 s)" by (rule sublist_skip_set)
    with s have "sublist n s" by (rule Cons.IH)
    then show ?thesis by (simp only: sublist_Cons_right) blast
  qed
qed

lemma encode_cp_nonempty: "encode_cp c \<noteq> []"
  by (simp add: encode_cp_def)

lemma last_utf8:
  assumes "s \<noteq> []" and "last s < 128"
  shows "utf8 s \<noteq> [] \<and> last (utf8 s) = char_of (last s)"
proof -
  from assms(1) have s: "s = butlast s @ [last s]" by simp
  from assms(2) have "encode_cp (last s) = [char_of (last s)]" by (rule encode_cp_ascii)
  then have "utf8 [last s] = [char_of (last s)]" by (simp add: utf8_Cons)
  then have "utf8 (butlast s @ [last s]) = utf8 (butlast s) @ [char_of (last s)]"
    by (simp only: utf8_append)
  with s have "utf8 s = utf8 (butlast s) @ [char_of (last s)]" by simp
  then show ?thesis by simp
qed

subsection \<open>Decoding\<close>

lemma decode_tail_Suc:
  assumes "decode_tail (Suc k) acc lo hi r = Some (c, r')"
  obtains b r1 where "r = b # r1" and "lo \<le> (of_char b :: nat)" and "(of_char b :: nat) \<le> hi"
    and "decode_tail k (acc * 64 + (of_char b - 128)) 128 191 r1 = Some (c, r')"
proof (cases r)
  case Nil
  with assms show ?thesis by simp
next
  case (Cons b r1)
  with assms have "lo \<le> (of_char b :: nat) \<and> (of_char b :: nat) \<le> hi"
    by (simp add: Let_def split: if_splits)
  moreover from this Cons assms
  have "decode_tail k (acc * 64 + (of_char b - 128)) 128 191 r1 = Some (c, r')"
    by (simp add: Let_def)
  ultimately show ?thesis using Cons that by blast
qed

lemma decode_cont_range:
  "decode_tail k acc 128 191 r = Some (c, r') \<Longrightarrow> acc * 64 ^ k \<le> c \<and> c < (acc + 1) * 64 ^ k"
proof (induction k arbitrary: acc r)
  case 0
  then show ?case by simp
next
  case (Suc k)
  from Suc.prems obtain b r1 where b: "128 \<le> (of_char b :: nat)" "(of_char b :: nat) \<le> 191"
    and t: "decode_tail k (acc * 64 + (of_char b - 128)) 128 191 r1 = Some (c, r')"
    by (rule decode_tail_Suc)
  let ?a = "acc * 64 + (of_char b - 128)"
  from Suc.IH [OF t] have lo: "?a * 64 ^ k \<le> c" and hi: "c < (?a + 1) * 64 ^ k" by blast+
  have "acc * 64 \<le> ?a" by simp
  then have "acc * 64 * 64 ^ k \<le> ?a * 64 ^ k" by (rule mult_le_mono1)
  from this lo have "acc * 64 * 64 ^ k \<le> c" by (rule order_trans)
  then have l: "acc * 64 ^ Suc k \<le> c" by (simp only: power_Suc mult.assoc)
  from b have "?a + 1 \<le> (acc + 1) * 64" by simp
  then have "(?a + 1) * 64 ^ k \<le> (acc + 1) * 64 * 64 ^ k" by (rule mult_le_mono1)
  with hi have "c < (acc + 1) * 64 * 64 ^ k" by (rule less_le_trans)
  then have "c < (acc + 1) * 64 ^ Suc k" by (simp only: power_Suc mult.assoc)
  with l show ?case by blast
qed

lemma decode_lead_range:
  assumes "decode_tail (Suc k) acc lo hi r = Some (c, r')" and "128 \<le> lo"
  shows "(acc * 64 + (lo - 128)) * 64 ^ k \<le> c \<and> c < (acc * 64 + (hi - 128) + 1) * 64 ^ k"
proof -
  from assms(1) obtain b r1 where b: "lo \<le> (of_char b :: nat)" "(of_char b :: nat) \<le> hi"
    and t: "decode_tail k (acc * 64 + (of_char b - 128)) 128 191 r1 = Some (c, r')"
    by (rule decode_tail_Suc)
  let ?a = "acc * 64 + (of_char b - 128)"
  from decode_cont_range [OF t] have lo: "?a * 64 ^ k \<le> c" and hi: "c < (?a + 1) * 64 ^ k"
    by blast+
  from b assms(2) have "acc * 64 + (lo - 128) \<le> ?a" by simp
  then have "(acc * 64 + (lo - 128)) * 64 ^ k \<le> ?a * 64 ^ k" by (rule mult_le_mono1)
  from this lo have l: "(acc * 64 + (lo - 128)) * 64 ^ k \<le> c" by (rule order_trans)
  from b assms(2) have "?a + 1 \<le> acc * 64 + (hi - 128) + 1" by simp
  then have "(?a + 1) * 64 ^ k \<le> (acc * 64 + (hi - 128) + 1) * 64 ^ k" by (rule mult_le_mono1)
  with hi have "c < (acc * 64 + (hi - 128) + 1) * 64 ^ k" by (rule less_le_trans)
  with l show ?thesis by blast
qed

lemma decode_first_encodable:
  assumes "decode_first bs = Some (c, r)"
  shows "encodable c"
proof (cases bs)
  case Nil
  with assms show ?thesis by simp
next
  case (Cons c0 r0)
  define b0 :: nat where "b0 = of_char c0"
  consider "b0 < 0x80" | "0xC2 \<le> b0" "b0 \<le> 0xDF" | "0xE0 \<le> b0" "b0 \<le> 0xEF"
    | "0xF0 \<le> b0" "b0 \<le> 0xF4" | "0x80 \<le> b0" "b0 < 0xC2" | "0xF4 < b0"
    by linarith
  then show ?thesis
  proof cases
    case 1
    with assms Cons have "c = b0" by (simp add: Let_def b0_def)
    with 1 show ?thesis by (simp add: encodable_def)
  next
    case 2
    with assms Cons have "decode_tail (Suc 0) (b0 - 0xC0) 0x80 0xBF r0 = Some (c, r)"
      by (simp add: Let_def b0_def)
    from decode_lead_range [OF this] have "c < ((b0 - 0xC0) * 64 + (0xBF - 128) + 1) * 64 ^ 0"
      by simp
    with 2 have "c < 0xD800" by simp
    then show ?thesis by (simp add: encodable_def)
  next
    case 3
    let ?lo = "if b0 = 0xE0 then 0xA0 else 0x80 :: nat"
    let ?hi = "if b0 = 0xED then 0x9F else 0xBF :: nat"
    have lo: "128 \<le> ?lo" by simp
    from 3 assms Cons have "decode_tail (Suc (Suc 0)) (b0 - 0xE0) ?lo ?hi r0 = Some (c, r)"
      by (simp add: Let_def b0_def numeral_2_eq_2)
    from decode_lead_range [OF this lo]
    have l: "((b0 - 0xE0) * 64 + (?lo - 128)) * 64 \<le> c"
      and h: "c < ((b0 - 0xE0) * 64 + (?hi - 128) + 1) * 64"
      by simp_all
    show ?thesis
    proof (cases "b0 \<le> 0xED")
      case True
      with 3 h have "c < 0xD800" by (cases "b0 = 0xED") simp_all
      then show ?thesis by (simp add: encodable_def)
    next
      case False
      with 3 l h have "0xDFFF < c \<and> c \<le> 0x10FFFF" by simp linarith
      then show ?thesis by (simp add: encodable_def)
    qed
  next
    case 4
    let ?lo = "if b0 = 0xF0 then 0x90 else 0x80 :: nat"
    let ?hi = "if b0 = 0xF4 then 0x8F else 0xBF :: nat"
    have lo: "128 \<le> ?lo" by simp
    from 4 assms Cons have "decode_tail (Suc (Suc (Suc 0))) (b0 - 0xF0) ?lo ?hi r0 = Some (c, r)"
      by (simp add: Let_def b0_def numeral_3_eq_3)
    from decode_lead_range [OF this lo]
    have l: "((b0 - 0xF0) * 64 + (?lo - 128)) * 4096 \<le> c"
      and h: "c < ((b0 - 0xF0) * 64 + (?hi - 128) + 1) * 4096"
      by simp_all
    from 4 l have "0xDFFF < c" by (cases "b0 = 0xF0") simp_all
    moreover from 4 h have "c \<le> 0x10FFFF" by (cases "b0 = 0xF4") simp_all
    ultimately show ?thesis by (simp add: encodable_def)
  next
    case 5
    with assms Cons show ?thesis by (simp add: Let_def b0_def)
  next
    case 6
    with assms Cons show ?thesis by (simp add: Let_def b0_def)
  qed
qed

lemma decode_utf8_encodable: "decode_utf8 bs = Inr s \<Longrightarrow> list_all encodable s"
proof (induction bs arbitrary: s rule: decode_utf8.induct)
  case (1 bs)
  show ?case
  proof (cases "bs = []")
    case True
    with "1.prems" show ?thesis by (simp add: decode_utf8.simps)
  next
    case False
    with "1.prems" obtain c r s' where f: "decode_first bs = Some (c, r)"
      and d: "decode_utf8 r = Inr s'" and s: "s = c # s'"
      by (subst (asm) decode_utf8.simps) (auto split: option.splits sum.splits)
    from "1.IH" [OF False f refl d] have "list_all encodable s'" .
    with decode_first_encodable [OF f] s show ?thesis by simp
  qed
qed

lemma decode_utf8_error: "decode_utf8 bs = Inl e \<Longrightarrow> e = UnicodeDecodeError"
proof (induction bs rule: decode_utf8.induct)
  case (1 bs)
  show ?case
  proof (cases "bs = []")
    case True
    with "1.prems" show ?thesis by (simp add: decode_utf8.simps)
  next
    case False
    show ?thesis
    proof (cases "decode_first bs")
      case None
      with False "1.prems" show ?thesis by (simp add: decode_utf8.simps)
    next
      case (Some p)
      obtain c r where p: "p = (c, r)" by (cases p)
      with Some False "1.prems" have "decode_utf8 r = Inl e"
        by (subst (asm) decode_utf8.simps) (simp split: sum.splits)
      with "1.IH" False Some p show ?thesis by simp
    qed
  qed
qed

lemma decode_latin1_encodable: "list_all encodable (decode_latin1 bs)"
proof -
  have "encodable (of_char b)" for b :: char
  proof -
    have "(of_char b :: nat) < 256" by simp
    then have "(of_char b :: nat) < 0xD800" by linarith
    then show ?thesis by (simp add: encodable_def)
  qed
  then show ?thesis by (simp add: decode_latin1_def list_all_iff)
qed

lemma set_str_replace_from: "set (str_replace_from old new s) \<subseteq> set s \<union> set new"
proof (induction old new s rule: str_replace_from.induct)
  case (1 old new)
  show ?case by simp
next
  case (2 old new c cs)
  show ?case
  proof (cases "old \<noteq> [] \<and> prefix old (c # cs)")
    case True
    from "2.IH"(1) [OF True] have "set (str_replace_from old new (drop (length old) (c # cs)))
      \<subseteq> set (drop (length old) (c # cs)) \<union> set new" .
    moreover have "set (drop (length old) (c # cs)) \<subseteq> set (c # cs)" by (rule set_drop_subset)
    ultimately show ?thesis using True by auto
  next
    case False
    from "2.IH"(2) [OF False] False show ?thesis by auto
  qed
qed

lemma set_normalize: "set (normalize s) \<subseteq> insert LF (set s)"
proof -
  have "old \<noteq> [] \<Longrightarrow> set (str_replace old new t) \<subseteq> set t \<union> set new" for old new t :: str
    using set_str_replace_from [of old new t] by (simp add: str_replace_def)
  from this [of "[CR, LF]" "[LF]" s] this [of "[CR]" "[LF]" "str_replace [CR, LF] [LF] s"]
  have "set (str_replace [CR] [LF] (str_replace [CR, LF] [LF] s)) \<subseteq> insert LF (set s)" by auto
  then show ?thesis by (auto simp: normalize_def Let_def)
qed

lemma encodable_LF: "encodable LF"
  by (simp add: encodable_def)

lemma normalize_encodable: "list_all encodable s \<Longrightarrow> list_all encodable (normalize s)"
  using set_normalize [of s] encodable_LF by (auto simp: list_all_iff)

subsection \<open>The content and the delimiter\<close>

lemma set_universal_newlines: "set (universal_newlines s) \<subseteq> insert LF (set s)"
proof -
  have "old \<noteq> [] \<Longrightarrow> set (str_replace old new t) \<subseteq> set t \<union> set new" for old new t :: str
    using set_str_replace_from [of old new t] by (simp add: str_replace_def)
  from this [of "[CR, LF]" "[LF]" s] this [of "[CR]" "[LF]" "str_replace [CR, LF] [LF] s"]
  show ?thesis by (auto simp: universal_newlines_def)
qed

lemma decode_input_encodable: "list_all encodable (decode_input raw)"
proof (cases "decode_utf8 raw")
  case (Inl e)
  then show ?thesis by (simp add: decode_input_def decode_latin1_encodable)
next
  case (Inr s)
  then have "list_all encodable s" by (rule decode_utf8_encodable)
  with set_universal_newlines [of s] encodable_LF have "list_all encodable (universal_newlines s)"
    by (auto simp: list_all_iff)
  with Inr show ?thesis by (simp add: decode_input_def)
qed

lemma content_encodable: "list_all encodable (content raw)"
  unfolding content_def by (rule normalize_encodable [OF decode_input_encodable])

lemma content_last: "content raw \<noteq> [] \<and> last (content raw) = LF"
  using normalize_endswith [of "decode_input raw"]
  by (auto simp: content_def endswith_def suffix_def)

lemma read_data_decode_input:
  assumes "files p = Some raw"
  shows "read_data files p = Inr (decode_input raw)"
proof (cases "decode_utf8 raw")
  case (Inl e)
  then have "e = UnicodeDecodeError" by (rule decode_utf8_error)
  with Inl assms show ?thesis
    by (simp add: read_data_def read_text_utf8_def read_bytes_def decode_input_def)
next
  case (Inr s)
  with assms show ?thesis
    by (simp add: read_data_def read_text_utf8_def decode_input_def)
qed

lemma delimiter_chars_ascii: "c \<in> delimiter_chars \<Longrightarrow> c < 128 \<and> encodable c"
  by (auto simp: delimiter_chars_def lit_def encodable_def)

lemma delimiter_chars_free:
  "c \<in> delimiter_chars \<Longrightarrow> c \<noteq> 40 \<and> c \<noteq> 41 \<and> c \<noteq> 34 \<and> c \<noteq> LF \<and> c \<noteq> 46"
  by (auto simp: delimiter_chars_def lit_def)

lemma str_of_nat_delimiter_chars: "set (str_of_nat k) \<subseteq> delimiter_chars"
proof
  fix c assume "c \<in> set (str_of_nat k)"
  then have "48 \<le> c \<and> c \<le> 57" by (rule str_of_nat_digits)
  then show "c \<in> delimiter_chars" by (simp add: delimiter_chars_def)
qed

lemma chosen_delimiter_chars:
  assumes "choose_delimiter data (lit ''TPCH_DISTS'') = Some d"
  shows "set d \<subseteq> delimiter_chars"
proof (cases "sublist (lit '')'' @ lit ''TPCH_DISTS'') data")
  case False
  with assms have "d = lit ''TPCH_DISTS''" by (simp add: choose_delimiter_def)
  then show ?thesis by (simp add: delimiter_chars_def lit_def)
next
  case True
  from loop_total [of 1 data "lit ''TPCH_DISTS''"] obtain k where
    "choose_delimiter_loop data (lit ''TPCH_DISTS'') 1
       = Some (lit ''TPCH_DISTS'' @ lit ''_'' @ str_of_nat k)"
    by blast
  with True assms have "d = lit ''TPCH_DISTS'' @ lit ''_'' @ str_of_nat k"
    by (simp add: choose_delimiter_def)
  moreover have "set (lit ''TPCH_DISTS'' @ lit ''_'') \<subseteq> delimiter_chars"
    by (simp add: delimiter_chars_def lit_def)
  ultimately show ?thesis using str_of_nat_delimiter_chars [of k] by auto
qed

lemma chosen_delimiter_total:
  obtains d where "choose_delimiter data (lit ''TPCH_DISTS'') = Some d"
    and "\<not> sublist (lit '')'' @ d) data"
proof (cases "sublist (lit '')'' @ lit ''TPCH_DISTS'') data")
  case False
  then show ?thesis using that [of "lit ''TPCH_DISTS''"] by (simp add: choose_delimiter_def)
next
  case True
  from loop_total [of 1 data "lit ''TPCH_DISTS''"] obtain k where
    "choose_delimiter_loop data (lit ''TPCH_DISTS'') 1
       = Some (lit ''TPCH_DISTS'' @ lit ''_'' @ str_of_nat k)"
    "\<not> sublist (lit '')'' @ lit ''TPCH_DISTS'' @ lit ''_'' @ str_of_nat k) data"
    by blast
  with True show ?thesis
    using that [of "lit ''TPCH_DISTS'' @ lit ''_'' @ str_of_nat k"]
    by (simp add: choose_delimiter_def)
qed

subsection \<open>The rendered unit\<close>

lemma find_sub_after:
  assumes "n \<noteq> []" and "hd n \<notin> set a"
  shows "find_sub n (a @ n @ t) = Some (length a)"
proof -
  have "find_sub n (n @ t) = Some 0" by (rule find_sub_prefix) simp
  with find_sub_skip_first [OF assms, of "n @ t"] show ?thesis by simp
qed

lemma raw_literal_found:
  assumes i: "find_sub ''R\"'' unit = Some i"
    and after: "drop (i + 2) unit = D @ ''('' @ X @ '')'' @ D @ ''\"'' @ T"
    and D: "CHR ''('' \<notin> set D"
    and X: "find_sub ('')'' @ D @ ''\"'') (X @ '')'' @ D @ ''\"'' @ T) = Some (length X)"
  shows "raw_literal unit = Some (D, X)"
proof -
  from D have j: "find_sub ''('' (D @ ''('' @ X @ '')'' @ D @ ''\"'' @ T) = Some (length D)"
    by (intro find_sub_after) simp_all
  have t: "take (length D) (D @ ''('' @ X @ '')'' @ D @ ''\"'' @ T) = D" by simp
  have r: "drop (length D + 1) (D @ ''('' @ X @ '')'' @ D @ ''\"'' @ T)
             = X @ '')'' @ D @ ''\"'' @ T" by simp
  have k: "take (length X) (X @ '')'' @ D @ ''\"'' @ T) = X" by simp
  show ?thesis
    unfolding raw_literal_def i after Let_def option.case j t r
    using X k by simp
qed


lemma utf8_render:
  "utf8 (render label d data) =
     header_bytes label @ ''R\"'' @ utf8 d @ ''('' @ (CHR 0x0A # utf8 data)
     @ '')'' @ utf8 d @ ''\"'' @ trailer_bytes"
  by (simp add: render_def utf8_append utf8_lit header_bytes_def trailer_bytes_def)


lemma byte_notin_utf8:
  assumes "set d \<subseteq> delimiter_chars" and "(of_char b :: nat) \<notin> delimiter_chars"
  shows "b \<notin> set (utf8 d)"
proof
  assume m: "b \<in> set (utf8 d)"
  from assms(1) have a: "\<forall>x \<in> set d. x < 128" by (auto dest: delimiter_chars_ascii)
  then have "utf8 d = map char_of d" by (rule utf8_ascii)
  with m obtain x where x: "x \<in> set d" and e: "b = char_of x" by auto
  from a x have "x < 256" by auto
  then have "(of_char (char_of x :: char) :: nat) = x" by (rule byte_val)
  with e have "(of_char b :: nat) = x" by simp
  with x assms show False by blast
qed

lemma find_R_header:
  assumes "list_all encodable label" and "\<not> sublist (lit ''R\"'') label"
  shows "find_sub ''R\"'' (header_bytes label @ ''R\"'' @ t) = Some (length (header_bytes label))"
proof -
  let ?A1 = "''/* Auto-generated from ''"
  let ?A2 = "''. */\<newline>#include <cstddef>\<newline>\<newline>extern \"C\" {\<newline>extern const char tpch_dists_data[] = ''"
  let ?n = "''R\"''"
  have c: "find_sub ?n (?A2 @ ?n @ t) = Some (length ?A2)"
    by (rule find_sub_after) simp_all
  have "\<not> sublist ?n (utf8 label)"
  proof
    assume "sublist ?n (utf8 label)"
    moreover have "utf8 (lit ?n) = ?n" by (rule utf8_lit) simp
    ultimately have "sublist (utf8 (lit ?n)) (utf8 label)" by simp
    with assms(1) have "sublist (lit ?n) label"
      by (intro sublist_utf8 [of "lit ?n" label]) (simp_all add: lit_def)
    with assms(2) show False by blast
  qed
  then have "find_sub ?n (utf8 label @ (?A2 @ ?n @ t))
               = map_option ((+) (length (utf8 label))) (find_sub ?n (?A2 @ ?n @ t))"
    by (rule find_sub_skip_hd) simp_all
  with c have b: "find_sub ?n (utf8 label @ (?A2 @ ?n @ t)) = Some (length (utf8 label) + length ?A2)"
    by simp
  have "find_sub ?n (?A1 @ (utf8 label @ (?A2 @ ?n @ t)))
          = map_option ((+) (length ?A1)) (find_sub ?n (utf8 label @ (?A2 @ ?n @ t)))"
    by (rule find_sub_skip_first) simp_all
  with b have "find_sub ?n (?A1 @ (utf8 label @ (?A2 @ ?n @ t)))
                 = Some (length ?A1 + (length (utf8 label) + length ?A2))"
    by simp
  then show ?thesis by (simp add: header_bytes_def)
qed

lemma find_closing:
  assumes d: "set d \<subseteq> delimiter_chars" and nd: "\<not> sublist (lit '')'' @ d) data"
    and ne: "data \<noteq> []" and l: "last data = LF" and enc: "list_all encodable data"
  shows "find_sub ('')'' @ utf8 d @ ''\"'') ((CHR 0x0A # utf8 data) @ '')'' @ utf8 d @ ''\"'' @ t)
           = Some (length (CHR 0x0A # utf8 data))"
proof -
  let ?n = "'')'' @ utf8 d @ ''\"''"
  let ?m = "lit '')'' @ d @ lit ''\"''"
  have m: "utf8 ?m = ?n" by (simp add: utf8_append utf8_lit)
  from d have ascii: "\<forall>c \<in> set ?m. c < 128" by (auto simp: lit_def dest: delimiter_chars_ascii)
  have c: "find_sub ?n (?n @ t) = Some 0" by (rule find_sub_prefix) simp
  have nosub: "\<not> sublist ?n (utf8 data)"
  proof
    assume "sublist ?n (utf8 data)"
    with m have "sublist (utf8 ?m) (utf8 data)" by simp
    with ascii enc have "sublist ?m data"
      by (intro sublist_utf8 [of ?m data]) (simp_all add: lit_def)
    moreover have "sublist (lit '')'' @ d) ?m"
      using sublist_append_rightI [of "lit '')'' @ d" "lit ''\"''"] by simp
    ultimately have "sublist (lit '')'' @ d) data" by (rule sublist_order.order_trans [rotated])
    with nd show False by blast
  qed
  from l have "last data < 128" by simp
  from last_utf8 [OF ne this] l
  have lu: "utf8 data \<noteq> [] \<and> last (utf8 data) = char_of LF" by simp
  have "LF \<notin> delimiter_chars" using delimiter_chars_free [of LF] by blast
  then have "(of_char (CHR 0x0A) :: nat) \<notin> delimiter_chars" by simp
  with d have "CHR 0x0A \<notin> set (utf8 d)" by (rule byte_notin_utf8)
  then have "CHR 0x0A \<notin> set ?n" by simp
  moreover have "char_of LF = CHR 0x0A" by (rule of_char_eqI [where ?'a = nat]) simp
  ultimately have "char_of LF \<notin> set ?n" by simp
  with lu have "utf8 data = [] \<or> last (utf8 data) \<notin> set ?n" by simp
  with nosub have "find_sub ?n (utf8 data @ (?n @ t))
                     = map_option ((+) (length (utf8 data))) (find_sub ?n (?n @ t))"
    by (rule find_sub_skip_last)
  with c have b: "find_sub ?n (utf8 data @ (?n @ t)) = Some (length (utf8 data))" by simp
  have "find_sub ?n ([CHR 0x0A] @ (utf8 data @ (?n @ t)))
          = map_option ((+) (length [CHR 0x0A])) (find_sub ?n (utf8 data @ (?n @ t)))"
    by (rule find_sub_skip_first) simp_all
  with b show ?thesis by simp
qed

lemma raw_literal_render:
  assumes d: "set d \<subseteq> delimiter_chars" and nd: "\<not> sublist (lit '')'' @ d) data"
    and ne: "data \<noteq> []" and l: "last data = LF" and enc: "list_all encodable data"
    and lab: "list_all encodable label" and nl: "\<not> sublist (lit ''R\"'') label"
  shows "raw_literal (utf8 (render label d data)) = Some (utf8 d, CHR 0x0A # utf8 data)"
proof (rule raw_literal_found [where T = trailer_bytes])
  show "find_sub ''R\"'' (utf8 (render label d data)) = Some (length (header_bytes label))"
    unfolding utf8_render by (rule find_R_header [OF lab nl])
  show "drop (length (header_bytes label) + 2) (utf8 (render label d data))
          = utf8 d @ ''('' @ (CHR 0x0A # utf8 data) @ '')'' @ utf8 d @ ''\"'' @ trailer_bytes"
    unfolding utf8_render by simp
  have "(40::nat) \<notin> delimiter_chars" using delimiter_chars_free [of 40] by blast
  then have "(of_char CHR ''('' :: nat) \<notin> delimiter_chars" by simp
  with d show "CHR ''('' \<notin> set (utf8 d)" by (rule byte_notin_utf8)
  show "find_sub ('')'' @ utf8 d @ ''\"'')
          ((CHR 0x0A # utf8 data) @ '')'' @ utf8 d @ ''\"'' @ trailer_bytes)
          = Some (length (CHR 0x0A # utf8 data))"
    by (rule find_closing [OF d nd ne l enc])
qed

subsection \<open>The run as a whole\<close>

lemma lit_encodable: "list_all encodable (lit s)"
  using decode_latin1_encodable [of s] by (simp add: decode_latin1_def lit_def)

lemma render_encodable:
  assumes "list_all encodable label" and "list_all encodable d" and "list_all encodable data"
  shows "list_all encodable (render label d data)"
  using assms by (simp add: render_def lit_encodable)

lemma delimiter_encodable: "set d \<subseteq> delimiter_chars \<Longrightarrow> list_all encodable d"
  by (auto simp: list_all_iff dest: delimiter_chars_ascii)

lemma main_writes:
  assumes f: "files (args_input a) = Some raw" and lab: "list_all encodable (label_of a)"
  obtains d where "choose_delimiter (content raw) (lit ''TPCH_DISTS'') = Some d"
    and "\<not> sublist (lit '')'' @ d) (content raw)"
    and "set d \<subseteq> delimiter_chars"
    and "main a files
           = Some (Inr (files(args_output a \<mapsto> utf8 (render (label_of a) d (content raw)))))"
proof -
  obtain d where d: "choose_delimiter (content raw) (lit ''TPCH_DISTS'') = Some d"
    and nd: "\<not> sublist (lit '')'' @ d) (content raw)"
    by (rule chosen_delimiter_total)
  from d have dc: "set d \<subseteq> delimiter_chars" by (rule chosen_delimiter_chars)
  from lab delimiter_encodable [OF dc] content_encodable [of raw]
  have "list_all encodable (render (label_of a) d (content raw))" by (rule render_encodable)
  then have e: "encode_utf8 (render (label_of a) d (content raw))
                  = Inr (utf8 (render (label_of a) d (content raw)))"
    by (simp add: encode_utf8_def)
  from f have r: "read_data files (args_input a) = Inr (decode_input raw)"
    by (rule read_data_decode_input)
  have "main a files
          = Some (Inr (files(args_output a \<mapsto> utf8 (render (label_of a) d (content raw)))))"
    using d e by (simp add: main_def r Let_def content_def)
  with d nd dc show ?thesis by (rule that)
qed

lemma generated_unit:
  assumes f: "files (args_input a) = Some raw" and lab: "list_all encodable (label_of a)"
  obtains d where "choose_delimiter (content raw) (lit ''TPCH_DISTS'') = Some d"
    and "\<not> sublist (lit '')'' @ d) (content raw)"
    and "set d \<subseteq> delimiter_chars"
    and "generated a files = Some (utf8 (render (label_of a) d (content raw)))"
proof -
  from f lab obtain d where d: "choose_delimiter (content raw) (lit ''TPCH_DISTS'') = Some d"
    "\<not> sublist (lit '')'' @ d) (content raw)" "set d \<subseteq> delimiter_chars"
    and m: "main a files
           = Some (Inr (files(args_output a \<mapsto> utf8 (render (label_of a) d (content raw)))))"
    by (rule main_writes)
  from m have "generated a files = Some (utf8 (render (label_of a) d (content raw)))"
    by (simp add: generated_def)
  with d show ?thesis by (rule that)
qed

section \<open>Claims about \<^verbatim>\<open>choose_delimiter\<close>\<close>

text \<open>
  C2. For every content string and the fixed base token \<^verbatim>\<open>TPCH_DISTS\<close>,
  \<open>choose_delimiter\<close> returns a delimiter \<open>D\<close>, and \<^verbatim>\<open>")" + D\<close> does not occur anywhere in
  the content.
\<close>

theorem chosen_delimiter_absent:
  "\<exists>D. choose_delimiter data (lit ''TPCH_DISTS'') = Some D \<and> \<not> sublist (lit '')'' @ D) data"
proof (cases "sublist (lit '')'' @ lit ''TPCH_DISTS'') data")
  case False
  then show ?thesis by (simp add: choose_delimiter_def)
next
  case True
  from loop_total [of 1 data "lit ''TPCH_DISTS''"] obtain k where
    "choose_delimiter_loop data (lit ''TPCH_DISTS'') 1
       = Some (lit ''TPCH_DISTS'' @ lit ''_'' @ str_of_nat k)"
    "\<not> sublist (lit '')'' @ lit ''TPCH_DISTS'' @ lit ''_'' @ str_of_nat k) data"
    by blast
  with True show ?thesis by (simp add: choose_delimiter_def)
qed

text \<open>
  C4. \<open>choose_delimiter\<close> returns the base itself whenever \<^verbatim>\<open>")" + base\<close> does not occur in
  the content, in particular for the empty content; otherwise it returns
  \<^verbatim>\<open>base + "_" + str(k)\<close> for the least \<open>k \<ge> 1\<close> whose \<^verbatim>\<open>")" + base + "_" + str(k)\<close> does
  not occur in the content. A content with \<^verbatim>\<open>)TPCH_DISTS\<close> and without
  \<^verbatim>\<open>)TPCH_DISTS_1\<close> yields \<^verbatim>\<open>TPCH_DISTS_1\<close>.
\<close>

theorem choose_delimiter_least_suffix:
  "(\<not> sublist (lit '')'' @ base) data \<longrightarrow> choose_delimiter data base = Some base)
   \<and> choose_delimiter [] base = Some base
   \<and> (sublist (lit '')'' @ base) data \<longrightarrow>
        (\<exists>k. 1 \<le> k
           \<and> choose_delimiter data base = Some (base @ lit ''_'' @ str_of_nat k)
           \<and> \<not> sublist (lit '')'' @ base @ lit ''_'' @ str_of_nat k) data
           \<and> (\<forall>j. 1 \<le> j \<and> j < k \<longrightarrow> sublist (lit '')'' @ base @ lit ''_'' @ str_of_nat j) data)))
   \<and> (sublist (lit '')TPCH_DISTS'') data \<and> \<not> sublist (lit '')TPCH_DISTS_1'') data \<longrightarrow>
        choose_delimiter data (lit ''TPCH_DISTS'') = Some (lit ''TPCH_DISTS_1''))"
proof (intro conjI impI)
  assume "\<not> sublist (lit '')'' @ base) data"
  then show "choose_delimiter data base = Some base" by (simp add: choose_delimiter_def)
next
  show "choose_delimiter [] base = Some base" by (simp add: choose_delimiter_def lit_def)
next
  assume "sublist (lit '')'' @ base) data"
  then have "choose_delimiter data base = choose_delimiter_loop data base 1"
    by (simp add: choose_delimiter_def)
  with loop_total [of 1 data base]
  show "\<exists>k. 1 \<le> k
           \<and> choose_delimiter data base = Some (base @ lit ''_'' @ str_of_nat k)
           \<and> \<not> sublist (lit '')'' @ base @ lit ''_'' @ str_of_nat k) data
           \<and> (\<forall>j. 1 \<le> j \<and> j < k \<longrightarrow> sublist (lit '')'' @ base @ lit ''_'' @ str_of_nat j) data)"
    by simp
next
  assume h: "sublist (lit '')TPCH_DISTS'') data \<and> \<not> sublist (lit '')TPCH_DISTS_1'') data"
  have one: "str_of_nat (Suc 0) = [49]" by (simp add: str_of_nat.simps)
  from h have "\<not> sublist (lit '')'' @ lit ''TPCH_DISTS'' @ lit ''_'' @ str_of_nat 1) data"
    by (simp add: one lit_def)
  then have "choose_delimiter_loop data (lit ''TPCH_DISTS'') 1
               = Some (lit ''TPCH_DISTS'' @ lit ''_'' @ str_of_nat 1)"
    by (rule loop_step_found)
  moreover from h have "sublist (lit '')'' @ lit ''TPCH_DISTS'') data" by (simp add: lit_def)
  ultimately show "choose_delimiter data (lit ''TPCH_DISTS'') = Some (lit ''TPCH_DISTS_1'')"
    by (simp add: choose_delimiter_def one lit_def)
qed

theorem choose_delimiter_least_suffix_witness:
  "(\<not> sublist (lit '')TPCH_DISTS'') (lit ''P|1|2\<newline>'')
      \<and> choose_delimiter (lit ''P|1|2\<newline>'') (lit ''TPCH_DISTS'') = Some (lit ''TPCH_DISTS''))
   \<and> (sublist (lit '')TPCH_DISTS'') (lit ''f(x)TPCH_DISTS\<newline>'')
      \<and> \<not> sublist (lit '')TPCH_DISTS_1'') (lit ''f(x)TPCH_DISTS\<newline>'')
      \<and> choose_delimiter (lit ''f(x)TPCH_DISTS\<newline>'') (lit ''TPCH_DISTS'')
          = Some (lit ''TPCH_DISTS_1''))"
proof -
  have a: "\<not> sublist (lit '')TPCH_DISTS'') (lit ''P|1|2\<newline>'')"
    by code_simp
  have b: "sublist (lit '')TPCH_DISTS'') (lit ''f(x)TPCH_DISTS\<newline>'')
             \<and> \<not> sublist (lit '')TPCH_DISTS_1'') (lit ''f(x)TPCH_DISTS\<newline>'')"
    by code_simp
  from a b
    choose_delimiter_least_suffix [of "lit ''TPCH_DISTS''" "lit ''P|1|2\<newline>''"]
    choose_delimiter_least_suffix [of "lit ''TPCH_DISTS''" "lit ''f(x)TPCH_DISTS\<newline>''"]
  show ?thesis by (simp add: lit_def)
qed

text \<open>
  C5. For every content string and every base token \<open>choose_delimiter\<close> returns: the
  candidates \<^verbatim>\<open>")" + base + "_" + str(k)\<close> are pairwise distinct strings and one of them
  with \<open>k \<ge> 1\<close> does not occur in the content, so the loop, which has no iteration cap,
  stops there at the latest.
\<close>

theorem choose_delimiter_terminates:
  "(\<exists>d. choose_delimiter data base = Some d)
   \<and> (\<exists>k. 1 \<le> k \<and> \<not> sublist (lit '')'' @ base @ lit ''_'' @ str_of_nat k) data)
   \<and> ((lit '')'' @ base @ lit ''_'' @ str_of_nat i = lit '')'' @ base @ lit ''_'' @ str_of_nat j)
        = (i = j))"
proof (intro conjI)
  from loop_total [of 1 data base]
  show "\<exists>d. choose_delimiter data base = Some d" by (auto simp: choose_delimiter_def)
next
  from free_suffix_exists [of 1 base data]
  show "\<exists>k. 1 \<le> k \<and> \<not> sublist (lit '')'' @ base @ lit ''_'' @ str_of_nat k) data" .
next
  show "(lit '')'' @ base @ lit ''_'' @ str_of_nat i = lit '')'' @ base @ lit ''_'' @ str_of_nat j)
          = (i = j)"
    by (auto dest: str_of_nat_inj)
qed

section \<open>Claims about normalization\<close>

text \<open>
  C10. The string-level normalization step (replace \<^verbatim>\<open>\r\n\<close> by \<^verbatim>\<open>\n\<close>, then every
  remaining \<^verbatim>\<open>\r\<close> by \<^verbatim>\<open>\n\<close>, then append \<^verbatim>\<open>\n\<close> unless the string ends with one) is
  idempotent on every string.
\<close>

theorem normalize_idempotent: "normalize (normalize s) = normalize s"
  by (rule normalize_fixed [OF normalize_no_CR normalize_endswith])

lemma normalize_cases:
  "normalize s = universal_newlines s \<and> endswith (universal_newlines s) [LF]
   \<or> normalize s = universal_newlines s @ [LF] \<and> \<not> endswith (universal_newlines s) [LF]"
  by (simp add: normalize_def universal_newlines_def Let_def)

lemma normalize_single_newline:
  assumes "\<not> endswith (universal_newlines s) [LF, LF]"
  shows "\<not> endswith (normalize s) [LF, LF]"
proof
  assume e: "endswith (normalize s) [LF, LF]"
  from normalize_cases [of s] show False
  proof (elim disjE conjE)
    assume "normalize s = universal_newlines s"
    with e assms show False by simp
  next
    assume n: "normalize s = universal_newlines s @ [LF]"
      and ne: "\<not> endswith (universal_newlines s) [LF]"
    from e n obtain p where "universal_newlines s @ [LF] = p @ [LF, LF]"
      by (auto simp: endswith_def suffix_def)
    then have "universal_newlines s @ [LF] = (p @ [LF]) @ [LF]" by simp
    then have "universal_newlines s = p @ [LF]" by (simp only: append1_eq_conv)
    with ne show False by (simp add: endswith_def suffix_def)
  qed
qed

lemma normalize_keeps:
  "normalize s
     = universal_newlines s @ (if endswith (universal_newlines s) [LF] then [] else [LF])"
  by (simp add: normalize_def universal_newlines_def Let_def)

text \<open>
  C3, as the code has it. For every input byte sequence the normalized content contains no
  \<^verbatim>\<open>\r\<close> and ends with \<^verbatim>\<open>\n\<close>. It ends with exactly one \<^verbatim>\<open>\n\<close> when the decoded
  input, after the conversion of its line endings, does not itself end with two. Newlines
  at the end of the input are kept, none is removed: the content is the decoded input with
  its line endings converted, followed by one more \<^verbatim>\<open>\n\<close> only if it did not end with one.
\<close>

theorem content_newlines:
  "CR \<notin> set (content raw) \<and> endswith (content raw) [LF]
   \<and> (\<not> endswith (universal_newlines (decode_input raw)) [LF, LF]
        \<longrightarrow> \<not> endswith (content raw) [LF, LF])
   \<and> content raw
       = universal_newlines (decode_input raw)
         @ (if endswith (universal_newlines (decode_input raw)) [LF] then [] else [LF])"
proof -
  have a: "CR \<notin> set (content raw)" unfolding content_def by (rule normalize_no_CR)
  have b: "endswith (content raw) [LF]" unfolding content_def by (rule normalize_endswith)
  have c: "\<not> endswith (universal_newlines (decode_input raw)) [LF, LF]
             \<longrightarrow> \<not> endswith (content raw) [LF, LF]"
    unfolding content_def by (rule impI) (rule normalize_single_newline)
  have d: "content raw
             = universal_newlines (decode_input raw)
               @ (if endswith (universal_newlines (decode_input raw)) [LF] then [] else [LF])"
    unfolding content_def by (rule normalize_keeps)
  from a b c d show ?thesis by (intro conjI)
qed

theorem content_newlines_witness:
  "\<not> endswith (universal_newlines (decode_input (''hello'' @ [CHR 0x0D, CHR 0x0A] @ ''world'' @ [CHR 0x0D, CHR 0x0A]))) [LF, LF]
   \<and> content (''hello'' @ [CHR 0x0D, CHR 0x0A] @ ''world'' @ [CHR 0x0D, CHR 0x0A]) = lit ''hello\<newline>world\<newline>''
   \<and> CR \<notin> set (content (''hello'' @ [CHR 0x0D, CHR 0x0A] @ ''world'' @ [CHR 0x0D, CHR 0x0A]))
   \<and> endswith (content (''hello'' @ [CHR 0x0D, CHR 0x0A] @ ''world'' @ [CHR 0x0D, CHR 0x0A])) [LF]
   \<and> \<not> endswith (content (''hello'' @ [CHR 0x0D, CHR 0x0A] @ ''world'' @ [CHR 0x0D, CHR 0x0A])) [LF, LF]
   \<and> universal_newlines (decode_input (''hello'' @ [CHR 0x0D, CHR 0x0A] @ ''world'' @ [CHR 0x0D, CHR 0x0A]))
       = lit ''hello\<newline>world\<newline>''
   \<and> content (''hello'' @ [CHR 0x0D, CHR 0x0A] @ ''world'' @ [CHR 0x0D, CHR 0x0A])
       = universal_newlines (decode_input (''hello'' @ [CHR 0x0D, CHR 0x0A] @ ''world'' @ [CHR 0x0D, CHR 0x0A]))
         @ (if endswith (universal_newlines (decode_input (''hello'' @ [CHR 0x0D, CHR 0x0A] @ ''world'' @ [CHR 0x0D, CHR 0x0A]))) [LF]
            then [] else [LF])"
proof -
  let ?raw = "''hello'' @ [CHR 0x0D, CHR 0x0A] @ ''world'' @ [CHR 0x0D, CHR 0x0A]"
  have h: "\<not> endswith (universal_newlines (decode_input ?raw)) [LF, LF]" by code_simp
  have c: "content ?raw = lit ''hello\<newline>world\<newline>''" by code_simp
  have u: "universal_newlines (decode_input ?raw) = lit ''hello\<newline>world\<newline>''" by code_simp
  from h c u content_newlines [of ?raw] show ?thesis by blast
qed

text \<open>
  With "exactly one" for every input, C3 fails: the input \<^verbatim>\<open>"a\n\n"\<close> is its own normalized
  content, and the character before its last is a newline.
\<close>

theorem content_two_newlines_counterexample:
  "content ''a\<newline>\<newline>'' = lit ''a\<newline>\<newline>''
   \<and> 2 \<le> length (content ''a\<newline>\<newline>'')
   \<and> content ''a\<newline>\<newline>'' ! (length (content ''a\<newline>\<newline>'') - 2) = LF"
  by code_simp

section \<open>Claims about decoding\<close>

text \<open>
  C7. When decoding the input bytes as UTF-8 fails, the same bytes are decoded as Latin-1,
  which maps every byte to a code point and cannot fail; so for every readable input file
  lines 54--57 leave a decoded string, no \<^verbatim>\<open>UnicodeDecodeError\<close> leaves \<^verbatim>\<open>main\<close>, and with a
  label that can be written the run completes.
\<close>

theorem decode_fallback:
  assumes "files (args_input a) = Some raw"
  shows "(decode_utf8 raw = Inl UnicodeDecodeError
            \<longrightarrow> read_data files (args_input a) = Inr (decode_latin1 raw))
         \<and> length (decode_latin1 raw) = length raw
         \<and> (\<exists>s. read_data files (args_input a) = Inr s)
         \<and> (\<exists>r. main a files = Some r \<and> r \<noteq> Inl UnicodeDecodeError)
         \<and> (list_all encodable (label_of a) \<longrightarrow> (\<exists>files'. main a files = Some (Inr files')))"
proof (intro conjI impI)
  assume "decode_utf8 raw = Inl UnicodeDecodeError"
  with assms show "read_data files (args_input a) = Inr (decode_latin1 raw)"
    by (simp add: read_data_def read_text_utf8_def read_bytes_def)
next
  show "length (decode_latin1 raw) = length raw" by (simp add: decode_latin1_def)
next
  from read_data_decode_input [of files "args_input a" raw, OF assms]
  show "\<exists>s. read_data files (args_input a) = Inr s" by blast
next
  obtain d where d: "choose_delimiter (content raw) (lit ''TPCH_DISTS'') = Some d"
    by (rule chosen_delimiter_total)
  have r: "read_data files (args_input a) = Inr (decode_input raw)"
    by (rule read_data_decode_input [of files "args_input a" raw, OF assms])
  show "\<exists>r. main a files = Some r \<and> r \<noteq> Inl UnicodeDecodeError"
  proof (cases "list_all encodable (render (label_of a) d (content raw))")
    case True
    with d r have "main a files
        = Some (Inr (files(args_output a \<mapsto> utf8 (render (label_of a) d (content raw)))))"
      by (simp add: main_def Let_def content_def encode_utf8_def)
    then show ?thesis by simp
  next
    case False
    with d r have "main a files = Some (Inl UnicodeEncodeError)"
      by (simp add: main_def Let_def content_def encode_utf8_def)
    then show ?thesis by simp
  qed
next
  assume "list_all encodable (label_of a)"
  with assms show "\<exists>files'. main a files = Some (Inr files')"
    by (rule main_writes) blast
qed

theorem decode_fallback_witness:
  "[lit ''dists.dss'' \<mapsto> [CHR 0x63, CHR 0x61, CHR 0x66, CHR 0xE9, CHR 0x0A]]
       (args_input \<lparr>args_input = lit ''dists.dss'', args_output = lit ''out.cc'', args_label = None\<rparr>)
     = Some [CHR 0x63, CHR 0x61, CHR 0x66, CHR 0xE9, CHR 0x0A]
   \<and> decode_utf8 [CHR 0x63, CHR 0x61, CHR 0x66, CHR 0xE9, CHR 0x0A] = Inl UnicodeDecodeError
   \<and> list_all encodable
        (label_of \<lparr>args_input = lit ''dists.dss'', args_output = lit ''out.cc'', args_label = None\<rparr>)
   \<and> read_data [lit ''dists.dss'' \<mapsto> [CHR 0x63, CHR 0x61, CHR 0x66, CHR 0xE9, CHR 0x0A]] (lit ''dists.dss'')
       = Inr [0x63, 0x61, 0x66, 0xE9, 0x0A]
   \<and> (\<exists>files'. main \<lparr>args_input = lit ''dists.dss'', args_output = lit ''out.cc'', args_label = None\<rparr>
          [lit ''dists.dss'' \<mapsto> [CHR 0x63, CHR 0x61, CHR 0x66, CHR 0xE9, CHR 0x0A]] = Some (Inr files'))"
proof -
  let ?raw = "[CHR 0x63, CHR 0x61, CHR 0x66, CHR 0xE9, CHR 0x0A]"
  let ?a = "\<lparr>args_input = lit ''dists.dss'', args_output = lit ''out.cc'', args_label = None\<rparr>"
  let ?files = "[lit ''dists.dss'' \<mapsto> ?raw]"
  have i: "args_input ?a = lit ''dists.dss''" by simp
  have f: "?files (args_input ?a) = Some ?raw" by simp
  have u: "decode_utf8 ?raw = Inl UnicodeDecodeError"
    by (simp add: decode_utf8.simps Let_def numeral_2_eq_2)
  have l: "list_all encodable (label_of ?a)" by (simp add: label_of_def lit_encodable)
  have v: "decode_latin1 ?raw = [0x63, 0x61, 0x66, 0xE9, 0x0A]" by (simp add: decode_latin1_def)
  from decode_fallback [of ?files ?a ?raw, OF f] u l
  have "read_data ?files (args_input ?a) = Inr (decode_latin1 ?raw)"
    and m: "\<exists>files'. main ?a ?files = Some (Inr files')"
    by blast+
  then have "read_data ?files (lit ''dists.dss'') = Inr [0x63, 0x61, 0x66, 0xE9, 0x0A]"
    by (simp only: i v)
  with f u l m show ?thesis by blast
qed

section \<open>Claims about the run as a whole\<close>

lemma main_depends:
  assumes "files (args_input a) = Some raw"
    and "choose_delimiter (content raw) (lit ''TPCH_DISTS'') = Some d"
  shows "main a files =
           (case encode_utf8 (render (label_of a) d (content raw)) of
              Inl e \<Rightarrow> Some (Inl e)
            | Inr written \<Rightarrow> Some (Inr (files(args_output a \<mapsto> written))))"
proof -
  from assms(1) have "read_data files (args_input a) = Inr (decode_input raw)"
    by (rule read_data_decode_input [where files = files])
  with assms(2) show ?thesis by (simp add: main_def Let_def content_def)
qed

lemma generated_eval:
  assumes "files (args_input a) = Some raw" and "label_of a = lab" and "list_all encodable lab"
    and "content raw = c" and "choose_delimiter c (lit ''TPCH_DISTS'') = Some d"
  shows "generated a files = Some (utf8 (render lab d c))"
proof -
  from assms(1,2,3) obtain d' where "choose_delimiter (content raw) (lit ''TPCH_DISTS'') = Some d'"
    and "generated a files = Some (utf8 (render (label_of a) d' (content raw)))"
    by (auto intro: generated_unit)
  with assms(2,4,5) show ?thesis by simp
qed

text \<open>
  C8, as the code has it. Two runs whose input files hold the same bytes, with the same output path
  and the same label text (the \<^verbatim>\<open>--label\<close> argument, or the input path string when
  \<^verbatim>\<open>--label\<close> is absent or empty) end alike: both write the same bytes to the output
  file, or both stop with the same error.
\<close>

theorem runs_agree:
  assumes "files1 (args_input a1) = Some raw" and "files2 (args_input a2) = Some raw"
    and "args_output a1 = args_output a2" and "label_of a1 = label_of a2"
  shows "(\<exists>e. main a1 files1 = Some (Inl e) \<and> main a2 files2 = Some (Inl e))
         \<or> (\<exists>unit. main a1 files1 = Some (Inr (files1(args_output a1 \<mapsto> unit)))
                  \<and> main a2 files2 = Some (Inr (files2(args_output a2 \<mapsto> unit)))
                  \<and> generated a1 files1 = Some unit \<and> generated a2 files2 = Some unit)"
proof -
  obtain d where d: "choose_delimiter (content raw) (lit ''TPCH_DISTS'') = Some d"
    by (rule chosen_delimiter_total)
  note m1 = main_depends [where files = files1 and a = a1, OF assms(1) d]
    and m2 = main_depends [where files = files2 and a = a2, OF assms(2) d]
  show ?thesis
  proof (cases "encode_utf8 (render (label_of a1) d (content raw))")
    case (Inl e)
    with m1 m2 assms(4) have "main a1 files1 = Some (Inl e) \<and> main a2 files2 = Some (Inl e)"
      by simp
    then show ?thesis by blast
  next
    case (Inr unit)
    with m1 m2 assms(3,4)
    have "main a1 files1 = Some (Inr (files1(args_output a1 \<mapsto> unit)))"
      and "main a2 files2 = Some (Inr (files2(args_output a2 \<mapsto> unit)))"
      by simp_all
    moreover from this assms(3)
    have "generated a1 files1 = Some unit" and "generated a2 files2 = Some unit"
      by (simp_all add: generated_def)
    ultimately show ?thesis by blast
  qed
qed

theorem runs_agree_witness:
  "[lit ''a/dists.dss'' \<mapsto> ''x\<newline>'']
       (args_input \<lparr>args_input = lit ''a/dists.dss'', args_output = lit ''out.cc'', args_label = Some (lit ''dists.dss'')\<rparr>)
     = Some ''x\<newline>''
   \<and> [lit ''b/dists.dss'' \<mapsto> ''x\<newline>'']
       (args_input \<lparr>args_input = lit ''b/dists.dss'', args_output = lit ''out.cc'', args_label = Some (lit ''dists.dss'')\<rparr>)
     = Some ''x\<newline>''
   \<and> label_of \<lparr>args_input = lit ''a/dists.dss'', args_output = lit ''out.cc'', args_label = Some (lit ''dists.dss'')\<rparr>
     = label_of \<lparr>args_input = lit ''b/dists.dss'', args_output = lit ''out.cc'', args_label = Some (lit ''dists.dss'')\<rparr>
   \<and> (\<exists>unit.
         generated \<lparr>args_input = lit ''a/dists.dss'', args_output = lit ''out.cc'', args_label = Some (lit ''dists.dss'')\<rparr>
           [lit ''a/dists.dss'' \<mapsto> ''x\<newline>''] = Some unit
       \<and> generated \<lparr>args_input = lit ''b/dists.dss'', args_output = lit ''out.cc'', args_label = Some (lit ''dists.dss'')\<rparr>
           [lit ''b/dists.dss'' \<mapsto> ''x\<newline>''] = Some unit)"
proof -
  let ?a1 = "\<lparr>args_input = lit ''a/dists.dss'', args_output = lit ''out.cc'', args_label = Some (lit ''dists.dss'')\<rparr>"
  let ?a2 = "\<lparr>args_input = lit ''b/dists.dss'', args_output = lit ''out.cc'', args_label = Some (lit ''dists.dss'')\<rparr>"
  let ?f1 = "[lit ''a/dists.dss'' \<mapsto> ''x\<newline>'']"
  let ?f2 = "[lit ''b/dists.dss'' \<mapsto> ''x\<newline>'']"
  have f1: "?f1 (args_input ?a1) = Some ''x\<newline>''" by simp
  have f2: "?f2 (args_input ?a2) = Some ''x\<newline>''" by simp
  have o: "args_output ?a1 = args_output ?a2" by simp
  have l: "label_of ?a1 = label_of ?a2" by (simp add: label_of_def lit_def)
  have e: "list_all encodable (label_of ?a1)" by (simp add: label_of_def lit_encodable)
  from f1 e obtain files' where "main ?a1 ?f1 = Some (Inr files')"
    by (rule main_writes [where files = ?f1 and a = ?a1])
  with runs_agree [of ?f1 ?a1 _ ?f2 ?a2, OF f1 f2 o l]
  have "\<exists>unit. generated ?a1 ?f1 = Some unit \<and> generated ?a2 ?f2 = Some unit" by auto
  with f1 f2 l show ?thesis by blast
qed

text \<open>
  With "identical label argument" in place of the label text, C8 fails: two runs without
  \<^verbatim>\<open>--label\<close>, on the files \<^verbatim>\<open>a.dss\<close> and \<^verbatim>\<open>b.dss\<close> that hold the same bytes, write
  different header comments.
\<close>

theorem same_label_argument_counterexample:
  "[lit ''a.dss'' \<mapsto> ''x\<newline>'', lit ''b.dss'' \<mapsto> ''x\<newline>'']
       (args_input \<lparr>args_input = lit ''a.dss'', args_output = lit ''out.cc'', args_label = None\<rparr>)
     = [lit ''a.dss'' \<mapsto> ''x\<newline>'', lit ''b.dss'' \<mapsto> ''x\<newline>'']
       (args_input \<lparr>args_input = lit ''b.dss'', args_output = lit ''out.cc'', args_label = None\<rparr>)
   \<and> args_output \<lparr>args_input = lit ''a.dss'', args_output = lit ''out.cc'', args_label = None\<rparr>
     = args_output \<lparr>args_input = lit ''b.dss'', args_output = lit ''out.cc'', args_label = None\<rparr>
   \<and> args_label \<lparr>args_input = lit ''a.dss'', args_output = lit ''out.cc'', args_label = None\<rparr>
     = args_label \<lparr>args_input = lit ''b.dss'', args_output = lit ''out.cc'', args_label = None\<rparr>
   \<and> generated \<lparr>args_input = lit ''a.dss'', args_output = lit ''out.cc'', args_label = None\<rparr>
         [lit ''a.dss'' \<mapsto> ''x\<newline>'', lit ''b.dss'' \<mapsto> ''x\<newline>'']
     = Some ''/* Auto-generated from a.dss. */\<newline>#include <cstddef>\<newline>\<newline>extern \"C\" {\<newline>extern const char tpch_dists_data[] = R\"TPCH_DISTS(\<newline>x\<newline>)TPCH_DISTS\";\<newline>extern const size_t tpch_dists_size = sizeof(tpch_dists_data) - 1;\<newline>}  // extern \"C\"\<newline>''
   \<and> generated \<lparr>args_input = lit ''b.dss'', args_output = lit ''out.cc'', args_label = None\<rparr>
         [lit ''a.dss'' \<mapsto> ''x\<newline>'', lit ''b.dss'' \<mapsto> ''x\<newline>'']
     = Some ''/* Auto-generated from b.dss. */\<newline>#include <cstddef>\<newline>\<newline>extern \"C\" {\<newline>extern const char tpch_dists_data[] = R\"TPCH_DISTS(\<newline>x\<newline>)TPCH_DISTS\";\<newline>extern const size_t tpch_dists_size = sizeof(tpch_dists_data) - 1;\<newline>}  // extern \"C\"\<newline>''
   \<and> generated \<lparr>args_input = lit ''a.dss'', args_output = lit ''out.cc'', args_label = None\<rparr>
         [lit ''a.dss'' \<mapsto> ''x\<newline>'', lit ''b.dss'' \<mapsto> ''x\<newline>'']
     \<noteq> generated \<lparr>args_input = lit ''b.dss'', args_output = lit ''out.cc'', args_label = None\<rparr>
         [lit ''a.dss'' \<mapsto> ''x\<newline>'', lit ''b.dss'' \<mapsto> ''x\<newline>'']"
proof -
  let ?a1 = "\<lparr>args_input = lit ''a.dss'', args_output = lit ''out.cc'', args_label = None\<rparr>"
  let ?a2 = "\<lparr>args_input = lit ''b.dss'', args_output = lit ''out.cc'', args_label = None\<rparr>"
  let ?f = "[lit ''a.dss'' \<mapsto> ''x\<newline>'', lit ''b.dss'' \<mapsto> ''x\<newline>'']"
  have f1: "?f (args_input ?a1) = Some ''x\<newline>''" by (simp add: lit_def)
  have f2: "?f (args_input ?a2) = Some ''x\<newline>''" by (simp add: lit_def)
  have c: "content ''x\<newline>'' = lit ''x\<newline>''" by code_simp
  have d: "choose_delimiter (lit ''x\<newline>'') (lit ''TPCH_DISTS'') = Some (lit ''TPCH_DISTS'')"
    by code_simp
  have g1: "generated ?a1 ?f = Some (utf8 (render (lit ''a.dss'') (lit ''TPCH_DISTS'') (lit ''x\<newline>'')))"
    by (rule generated_eval [where files = ?f and a = ?a1, OF f1 _ lit_encodable c d])
      (simp add: label_of_def)
  have g2: "generated ?a2 ?f = Some (utf8 (render (lit ''b.dss'') (lit ''TPCH_DISTS'') (lit ''x\<newline>'')))"
    by (rule generated_eval [where files = ?f and a = ?a2, OF f2 _ lit_encodable c d])
      (simp add: label_of_def)
  have u1: "utf8 (render (lit ''a.dss'') (lit ''TPCH_DISTS'') (lit ''x\<newline>''))
    = ''/* Auto-generated from a.dss. */\<newline>#include <cstddef>\<newline>\<newline>extern \"C\" {\<newline>extern const char tpch_dists_data[] = R\"TPCH_DISTS(\<newline>x\<newline>)TPCH_DISTS\";\<newline>extern const size_t tpch_dists_size = sizeof(tpch_dists_data) - 1;\<newline>}  // extern \"C\"\<newline>''"
    by (simp add: utf8_render header_bytes_def trailer_bytes_def utf8_lit)
  have u2: "utf8 (render (lit ''b.dss'') (lit ''TPCH_DISTS'') (lit ''x\<newline>''))
    = ''/* Auto-generated from b.dss. */\<newline>#include <cstddef>\<newline>\<newline>extern \"C\" {\<newline>extern const char tpch_dists_data[] = R\"TPCH_DISTS(\<newline>x\<newline>)TPCH_DISTS\";\<newline>extern const size_t tpch_dists_size = sizeof(tpch_dists_data) - 1;\<newline>}  // extern \"C\"\<newline>''"
    by (simp add: utf8_render header_bytes_def trailer_bytes_def utf8_lit)
  have ne: "generated ?a1 ?f \<noteq> generated ?a2 ?f" unfolding g1 g2 u1 u2 by simp
  from f1 f2 have "?f (args_input ?a1) = ?f (args_input ?a2)" by (simp only:)
  moreover have "args_output ?a1 = args_output ?a2" by simp
  moreover have "args_label ?a1 = args_label ?a2" by simp
  moreover note g1 [unfolded u1] g2 [unfolded u2] ne
  ultimately show ?thesis by blast
qed

section \<open>Claims about the generated unit\<close>

lemma length_utf8_ascii: "\<forall>c \<in> set s. c < 128 \<Longrightarrow> length (utf8 s) = length s"
  by (simp add: utf8_ascii)

lemma content_hello:
  "content (''hello'' @ [CHR 0x0D, CHR 0x0A] @ ''world'' @ [CHR 0x0D, CHR 0x0A])
     = lit ''hello\<newline>world\<newline>''"
  by code_simp

lemma content_empty: "content [] = lit ''\<newline>''"
  by code_simp

text \<open>
  C6. For every input file and every label that can be written, the generated file is the
  header, the opening marker \<^verbatim>\<open>R"D(\<close>, one newline, the bytes of the normalized content,
  the closing marker \<^verbatim>\<open>)D"\<close> and the trailer, and the closing marker does not occur
  earlier behind the opening one: the span between the markers is that newline followed
  by the content, and without the newline, the one framing character of the template, it
  is the content. When the label does not contain \<^verbatim>\<open>R"\<close>, this literal is the first raw
  string literal of the file.
\<close>

theorem raw_literal_roundtrip:
  assumes "files (args_input a) = Some raw" and "list_all encodable (label_of a)"
  shows "\<exists>unit d. generated a files = Some unit
           \<and> choose_delimiter (content raw) (lit ''TPCH_DISTS'') = Some d
           \<and> unit = header_bytes (label_of a) @ ''R\"'' @ utf8 d @ ''(''
                      @ (CHR 0x0A # utf8 (content raw)) @ '')'' @ utf8 d @ ''\"'' @ trailer_bytes
           \<and> find_sub ('')'' @ utf8 d @ ''\"'')
                 ((CHR 0x0A # utf8 (content raw)) @ '')'' @ utf8 d @ ''\"'' @ trailer_bytes)
               = Some (length (CHR 0x0A # utf8 (content raw)))
           \<and> (\<not> sublist (lit ''R\"'') (label_of a) \<longrightarrow>
                 raw_literal unit = Some (utf8 d, CHR 0x0A # utf8 (content raw))
                 \<and> map_option (tl \<circ> snd) (raw_literal unit) = Some (utf8 (content raw)))"
proof -
  from assms obtain d where d: "choose_delimiter (content raw) (lit ''TPCH_DISTS'') = Some d"
    and nd: "\<not> sublist (lit '')'' @ d) (content raw)" and dc: "set d \<subseteq> delimiter_chars"
    and g: "generated a files = Some (utf8 (render (label_of a) d (content raw)))"
    by (rule generated_unit [where files = files and a = a])
  from content_last [of raw] have ne: "content raw \<noteq> []" and l: "last (content raw) = LF"
    by blast+
  let ?unit = "utf8 (render (label_of a) d (content raw))"
  have s: "?unit = header_bytes (label_of a) @ ''R\"'' @ utf8 d @ ''(''
                      @ (CHR 0x0A # utf8 (content raw)) @ '')'' @ utf8 d @ ''\"'' @ trailer_bytes"
    by (rule utf8_render)
  have c: "find_sub ('')'' @ utf8 d @ ''\"'')
                 ((CHR 0x0A # utf8 (content raw)) @ '')'' @ utf8 d @ ''\"'' @ trailer_bytes)
               = Some (length (CHR 0x0A # utf8 (content raw)))"
    by (rule find_closing [OF dc nd ne l content_encodable])
  have r: "raw_literal ?unit = Some (utf8 d, CHR 0x0A # utf8 (content raw))
             \<and> map_option (tl \<circ> snd) (raw_literal ?unit) = Some (utf8 (content raw))"
    if "\<not> sublist (lit ''R\"'') (label_of a)"
  proof -
    from raw_literal_render [OF dc nd ne l content_encodable assms(2) that]
    have "raw_literal ?unit = Some (utf8 d, CHR 0x0A # utf8 (content raw))" .
    then show ?thesis by simp
  qed
  from g d s c r show ?thesis by blast
qed

theorem raw_literal_roundtrip_witness:
  "[lit ''dists.dss'' \<mapsto> ''hello'' @ [CHR 0x0D, CHR 0x0A] @ ''world'' @ [CHR 0x0D, CHR 0x0A]]
       (args_input \<lparr>args_input = lit ''dists.dss'', args_output = lit ''out.cc'', args_label = None\<rparr>)
     = Some (''hello'' @ [CHR 0x0D, CHR 0x0A] @ ''world'' @ [CHR 0x0D, CHR 0x0A])
   \<and> list_all encodable
        (label_of \<lparr>args_input = lit ''dists.dss'', args_output = lit ''out.cc'', args_label = None\<rparr>)
   \<and> \<not> sublist (lit ''R\"'')
        (label_of \<lparr>args_input = lit ''dists.dss'', args_output = lit ''out.cc'', args_label = None\<rparr>)
   \<and> (\<exists>unit.
         generated \<lparr>args_input = lit ''dists.dss'', args_output = lit ''out.cc'', args_label = None\<rparr>
           [lit ''dists.dss'' \<mapsto> ''hello'' @ [CHR 0x0D, CHR 0x0A] @ ''world'' @ [CHR 0x0D, CHR 0x0A]]
           = Some unit
         \<and> raw_literal unit = Some (''TPCH_DISTS'', ''\<newline>hello\<newline>world\<newline>'')
         \<and> map_option (tl \<circ> snd) (raw_literal unit) = Some ''hello\<newline>world\<newline>'')"
proof -
  let ?raw = "''hello'' @ [CHR 0x0D, CHR 0x0A] @ ''world'' @ [CHR 0x0D, CHR 0x0A]"
  let ?a = "\<lparr>args_input = lit ''dists.dss'', args_output = lit ''out.cc'', args_label = None\<rparr>"
  let ?files = "[lit ''dists.dss'' \<mapsto> ?raw]"
  have f: "?files (args_input ?a) = Some ?raw" by simp
  have e: "list_all encodable (label_of ?a)" by (simp add: label_of_def lit_encodable)
  have n: "\<not> sublist (lit ''R\"'') (label_of ?a)" by (simp add: label_of_def) code_simp
  have d: "choose_delimiter (lit ''hello\<newline>world\<newline>'') (lit ''TPCH_DISTS'') = Some (lit ''TPCH_DISTS'')"
    by code_simp
  have u: "utf8 (lit ''hello\<newline>world\<newline>'') = ''hello\<newline>world\<newline>''"
    by (rule utf8_lit) simp
  have v: "utf8 (lit ''TPCH_DISTS'') = ''TPCH_DISTS''" by (rule utf8_lit) simp
  from raw_literal_roundtrip [of ?files ?a ?raw, OF f e] n
  obtain unit d' where g: "generated ?a ?files = Some unit"
    and cd: "choose_delimiter (content ?raw) (lit ''TPCH_DISTS'') = Some d'"
    and rl: "raw_literal unit = Some (utf8 d', CHR 0x0A # utf8 (content ?raw))"
    and mo: "map_option (tl \<circ> snd) (raw_literal unit) = Some (utf8 (content ?raw))"
    by blast
  from cd have d': "d' = lit ''TPCH_DISTS''" unfolding content_hello d by simp
  from rl have "raw_literal unit = Some (''TPCH_DISTS'', ''\<newline>hello\<newline>world\<newline>'')"
    unfolding content_hello d' u v by simp
  moreover from mo have "map_option (tl \<circ> snd) (raw_literal unit) = Some ''hello\<newline>world\<newline>''"
    unfolding content_hello u .
  moreover note g
  ultimately have "generated ?a ?files = Some unit
      \<and> raw_literal unit = Some (''TPCH_DISTS'', ''\<newline>hello\<newline>world\<newline>'')
      \<and> map_option (tl \<circ> snd) (raw_literal unit) = Some ''hello\<newline>world\<newline>''"
    by blast
  with f e n show ?thesis by blast
qed

subsection \<open>The unit as a compiler reads it\<close>

lemma d_char_delimiter:
  assumes "c \<in> delimiter_chars"
  shows "d_char (char_of c)"
proof -
  from assms have "c < 256" by (auto dest: delimiter_chars_ascii)
  then have v: "(of_char (char_of c :: char) :: nat) = c" by (rule byte_val)
  from assms have "0x21 \<le> c \<and> c \<le> 0x7E \<and> c \<noteq> 0x28 \<and> c \<noteq> 0x29 \<and> c \<noteq> 0x5C
      \<and> c \<noteq> 0x24 \<and> c \<noteq> 0x40 \<and> c \<noteq> 0x60"
    by (auto simp: delimiter_chars_def lit_def)
  then show ?thesis unfolding d_char_def Let_def v .
qed

lemma utf8_delimiter:
  assumes "set d \<subseteq> delimiter_chars"
  shows "utf8 d = map char_of d" and "length (utf8 d) = length d" and "list_all d_char (utf8 d)"
proof -
  from assms have "\<forall>x \<in> set d. x < 128" by (auto dest: delimiter_chars_ascii)
  then show u: "utf8 d = map char_of d" by (rule utf8_ascii)
  then show "length (utf8 d) = length d" by simp
  from assms show "list_all d_char (utf8 d)"
    unfolding u by (auto simp: list_all_iff intro: d_char_delimiter)
qed

lemma utf8_render_code:
  "utf8 (render label d data) =
     ''/*'' @ '' Auto-generated from '' @ utf8 label @ ''. '' @ ''*/''
     @ declaration_bytes @ utf8 d @ ''('' @ (CHR 0x0A # utf8 data)
     @ '')'' @ utf8 d @ ''\"'' @ trailer_bytes"
  by (simp add: render_def utf8_append utf8_lit declaration_bytes_def trailer_bytes_def)

lemma skip_splices_comment:
  assumes "CHR 0x0A \<notin> set p" and "CHR 0x0D \<notin> set p"
  shows "skip_splices (p @ ''*/'' @ t) = p @ ''*/'' @ t"
  using assms by (cases p rule: skip_splices.cases) auto

lemma comment_end_first:
  assumes "CHR 0x0A \<notin> set p" and "CHR 0x0D \<notin> set p" and "\<not> sublist ''*/'' p"
  shows "comment_end (p @ ''*/'' @ t) = Some t"
  using assms
proof (induction p)
  case Nil
  have "skip_splices (CHR ''/'' # t) = CHR ''/'' # t" by (cases t) simp_all
  then show ?case by simp
next
  case (Cons c p)
  from Cons.prems have lf: "CHR 0x0A \<notin> set p" and cr: "CHR 0x0D \<notin> set p" by simp_all
  from Cons.prems(3) have np: "\<not> prefix ''*/'' (c # p)" and ns: "\<not> sublist ''*/'' p"
    by (simp_all add: sublist_Cons_right)
  have k: "skip_splices (p @ ''*/'' @ t) = p @ ''*/'' @ t"
    using lf cr by (rule skip_splices_comment)
  have n: "\<not> (c = CHR ''*'' \<and> prefix ''/'' (p @ ''*/'' @ t))"
  proof
    assume a: "c = CHR ''*'' \<and> prefix ''/'' (p @ ''*/'' @ t)"
    then obtain q where "p = CHR ''/'' # q" by (cases p) auto
    with a np show False by simp
  qed
  have "comment_end ((c # p) @ ''*/'' @ t) = comment_end (c # (p @ ''*/'' @ t))" by simp
  also have "\<dots> = comment_end (p @ ''*/'' @ t)"
    unfolding comment_end.simps k using n by (simp only: if_False)
  also have "\<dots> = Some t" by (rule Cons.IH [OF lf cr ns])
  finally show ?case .
qed

lemma sublist_skip_set_right:
  assumes "m \<noteq> []" and "last m \<notin> set e" and "sublist m (t @ e)"
  shows "sublist m t"
proof -
  from assms(3) have "sublist (rev m) (rev (t @ e))" by (simp only: sublist_rev)
  then have s: "sublist (rev m) (rev e @ rev t)" by simp
  from assms(1) have n: "rev m \<noteq> []" by simp
  from assms(1,2) have h: "hd (rev m) \<notin> set (rev e)" by (simp add: hd_rev)
  from n h s have "sublist (rev m) (rev t)" by (rule sublist_skip_set)
  then show ?thesis by (simp only: sublist_rev)
qed

lemma ascii_byte_of_utf8:
  assumes "list_all encodable s" and "c < 128" and "char_of c \<in> set (utf8 s)"
  shows "c \<in> set s"
proof -
  from assms(2) have u: "utf8 [c] = [char_of c]" using utf8_ascii [of "[c]"] by simp
  from assms(3) obtain xs ys where "utf8 s = xs @ [char_of c] @ ys"
    by (auto simp: in_set_conv_decomp)
  then have "sublist (utf8 [c]) (utf8 s)" unfolding u by (metis sublist_appendI)
  with assms(1,2) have "sublist [c] s" by (intro sublist_utf8 [of "[c]" s]) simp_all
  then have "set [c] \<subseteq> set s" by (rule set_mono_sublist)
  then show ?thesis by simp
qed

lemma skip_comment_header:
  assumes "list_all encodable label" and "\<not> sublist (lit ''*/'') label"
    and "LF \<notin> set label" and "CR \<notin> set label"
  shows "skip_comment (''/*'' @ '' Auto-generated from '' @ utf8 label @ ''. '' @ ''*/'' @ t)
           = Some t"
proof -
  let ?A = "'' Auto-generated from ''"
  let ?n = "''*/''"
  let ?P = "?A @ utf8 label @ ''. ''"
  have "char_of (10::nat) = CHR 0x0A" by (rule of_char_eqI [where ?'a = nat]) simp
  with ascii_byte_of_utf8 [OF assms(1), of 10] assms(3)
  have "CHR 0x0A \<notin> set (utf8 label)" by auto
  then have lf: "CHR 0x0A \<notin> set ?P" by simp
  have "char_of (13::nat) = CHR 0x0D" by (rule of_char_eqI [where ?'a = nat]) simp
  with ascii_byte_of_utf8 [OF assms(1), of 13] assms(4)
  have "CHR 0x0D \<notin> set (utf8 label)" by auto
  then have cr: "CHR 0x0D \<notin> set ?P" by simp
  have nu: "\<not> sublist ?n (utf8 label)"
  proof
    assume "sublist ?n (utf8 label)"
    moreover have "utf8 (lit ?n) = ?n" by (rule utf8_lit) simp
    ultimately have "sublist (utf8 (lit ?n)) (utf8 label)" by simp
    with assms(1) have "sublist (lit ?n) label"
      by (intro sublist_utf8 [of "lit ?n" label]) (simp_all add: lit_def)
    with assms(2) show False by blast
  qed
  have ns: "\<not> sublist ?n ?P"
  proof
    assume a: "sublist ?n ?P"
    have ne: "?n \<noteq> []" by simp
    have h: "hd ?n \<notin> set ?A" by simp
    have l: "last ?n \<notin> set ''. ''" by simp
    from ne h a have "sublist ?n (utf8 label @ ''. '')" by (rule sublist_skip_set)
    with ne l have "sublist ?n (utf8 label)" by (rule sublist_skip_set_right)
    with nu show False ..
  qed
  have "comment_end (?P @ ?n @ t) = Some t" using lf cr ns by (rule comment_end_first)
  then show ?thesis by (simp add: skip_comment_def)
qed

lemma read_unit_render:
  assumes dc: "set d \<subseteq> delimiter_chars" and nd: "\<not> sublist (lit '')'' @ d) data"
    and ne: "data \<noteq> []" and l: "last data = LF" and enc: "list_all encodable data"
    and lab: "list_all encodable label" and nl: "\<not> sublist (lit ''*/'') label"
    and lf: "LF \<notin> set label" and cr: "CR \<notin> set label"
  shows "read_unit (utf8 (render label d data))
           = (if length d \<le> 16 then Some (CHR 0x0A # utf8 data) else None)"
proof -
  let ?X = "CHR 0x0A # utf8 data"
  let ?lit = "utf8 d @ ''('' @ ?X @ '')'' @ utf8 d @ ''\"'' @ trailer_bytes"
  let ?rest = "?X @ '')'' @ utf8 d @ ''\"'' @ trailer_bytes"
  have s: "skip_comment (utf8 (render label d data)) = Some (declaration_bytes @ ?lit)"
    unfolding utf8_render_code by (rule skip_comment_header [OF lab nl lf cr])
  have p: "strip_prefix declaration_bytes (declaration_bytes @ ?lit) = Some ?lit"
    by (simp add: strip_prefix_def)
  have "(40::nat) \<notin> delimiter_chars" using delimiter_chars_free [of 40] by blast
  then have "(of_char CHR ''('' :: nat) \<notin> delimiter_chars" by simp
  with dc have "CHR ''('' \<notin> set (utf8 d)" by (rule byte_notin_utf8)
  then have j: "find_sub ''('' ?lit = Some (length (utf8 d))"
    by (intro find_sub_after) simp_all
  have t: "take (length (utf8 d)) ?lit = utf8 d" by simp
  have r: "drop (length (utf8 d) + 1) ?lit = ?rest" by simp
  have k: "find_sub ('')'' @ utf8 d @ ''\"'') ?rest = Some (length ?X)"
    by (rule find_closing [OF dc nd ne l enc])
  have tr: "drop (length ?X + length (utf8 d) + 2) ?rest = trailer_bytes" by simp
  have tk: "take (length ?X) ?rest = ?X" by simp
  note u = utf8_delimiter [OF dc]
  show ?thesis
    unfolding read_unit_def s option.case p j Let_def t r k tr tk
    using u(2,3) by simp
qed

lemma symbols_of_read_unit:
  assumes "read_unit unit = Some X"
  shows "tpch_dists_data unit = Some X" and "sizeof_tpch_dists_data unit = Some (length X + 1)"
    and "tpch_dists_size unit = Some (length X)"
  using assms by (simp_all add: tpch_dists_data_def sizeof_tpch_dists_data_def tpch_dists_size_def)

lemma symbols_of_unread_unit:
  assumes "read_unit unit = None"
  shows "tpch_dists_data unit = None" and "sizeof_tpch_dists_data unit = None"
    and "tpch_dists_size unit = None"
  using assms by (simp_all add: tpch_dists_data_def sizeof_tpch_dists_data_def tpch_dists_size_def)

lemma generated_read_unit:
  assumes f: "files (args_input a) = Some raw" and lab: "list_all encodable (label_of a)"
    and nl: "\<not> sublist (lit ''*/'') (label_of a)"
    and lf: "LF \<notin> set (label_of a)" and cr: "CR \<notin> set (label_of a)"
  obtains d unit where "choose_delimiter (content raw) (lit ''TPCH_DISTS'') = Some d"
    and "generated a files = Some unit"
    and "read_unit unit = (if length d \<le> 16 then Some (CHR 0x0A # utf8 (content raw)) else None)"
proof -
  from f lab obtain d where d: "choose_delimiter (content raw) (lit ''TPCH_DISTS'') = Some d"
    and nd: "\<not> sublist (lit '')'' @ d) (content raw)" and dc: "set d \<subseteq> delimiter_chars"
    and g: "generated a files = Some (utf8 (render (label_of a) d (content raw)))"
    by (rule generated_unit [where files = files and a = a])
  from content_last [of raw] have ne: "content raw \<noteq> []" and l: "last (content raw) = LF"
    by blast+
  from read_unit_render [OF dc nd ne l content_encodable lab nl lf cr] d g
  show ?thesis by (rule that [rotated 2])
qed

lemma str_of_nat_short: "0 < n \<Longrightarrow> k < 10 ^ n \<Longrightarrow> length (str_of_nat k) \<le> n"
proof (induction n arbitrary: k)
  case 0
  then show ?case by simp
next
  case (Suc n)
  show ?case
  proof (cases "k < 10")
    case True
    then show ?thesis by (simp add: str_of_nat.simps [of k])
  next
    case False
    with Suc.prems have n: "0 < n" by (cases n) simp_all
    from Suc.prems have "k div 10 < 10 ^ n" by (simp add: less_mult_imp_div_less mult.commute)
    with Suc.IH [OF n] have "length (str_of_nat (k div 10)) \<le> n" .
    with False show ?thesis by (simp add: str_of_nat.simps [of k])
  qed
qed

subsection \<open>An input on which 99999 suffixes collide\<close>

lemma set_collisions: "set (collisions n) \<subseteq> insert 41 delimiter_chars"
proof (induction n)
  case 0
  show ?case by simp
next
  case (Suc n)
  have "set (lit ''TPCH_DISTS'' @ lit ''_'') \<subseteq> delimiter_chars"
    by (simp add: delimiter_chars_def lit_def)
  with Suc str_of_nat_delimiter_chars [of "Suc n"] show ?case by (auto simp: lit_def)
qed

lemma sublist_collisions:
  "1 \<le> j \<Longrightarrow> j \<le> n \<Longrightarrow>
   sublist (lit '')'' @ lit ''TPCH_DISTS'' @ lit ''_'' @ str_of_nat j) (collisions n)"
proof (induction n)
  case 0
  then show ?case by simp
next
  case (Suc n)
  let ?c = "lit '')'' @ lit ''TPCH_DISTS'' @ lit ''_'' @ str_of_nat j"
  show ?case
  proof (cases "j = Suc n")
    case True
    have "sublist ?c (collisions n @ ?c)" by (rule sublist_append_leftI)
    with True show ?thesis by simp
  next
    case False
    with Suc have "sublist ?c (collisions n)" by simp
    then have "sublist ?c (collisions n @ lit '')'' @ lit ''TPCH_DISTS'' @ lit ''_'' @ str_of_nat (Suc n))"
      by (auto simp: sublist_def) (metis append.assoc)
    then show ?thesis by simp
  qed
qed

lemma no_long_prefix:
  assumes "length s \<le> 5" and "t = [] \<or> hd t \<notin> set (lit ''100000'')"
  shows "\<not> prefix (lit ''100000'') (s @ t)"
proof
  assume "prefix (lit ''100000'') (s @ t)"
  then consider "prefix (lit ''100000'') s" | us where "lit ''100000'' = s @ us" "prefix us t"
    by (auto simp: prefix_append)
  then show False
  proof cases
    case 1
    then have "length (lit ''100000'') \<le> length s" by (rule prefix_length_le)
    with assms(1) show False by (simp add: lit_def)
  next
    case 2
    from 2(1) assms(1) have "us \<noteq> []" by (auto simp: lit_def)
    then obtain u us' where us: "us = u # us'" by (cases us) auto
    with 2(2) obtain t' where "t = u # t'" by (cases t) auto
    with assms(2) have "u \<notin> set (lit ''100000'')" by simp
    moreover from 2(1) us have "u \<in> set (lit ''100000'')" by simp
    ultimately show False by blast
  qed
qed

lemma no_long_candidate:
  assumes "n < 100000"
    and "t = [] \<or> hd t \<notin> set (lit ''100000'')"
    and "\<not> sublist (lit '')'' @ lit ''TPCH_DISTS'' @ lit ''_'' @ lit ''100000'') t"
  shows "\<not> sublist (lit '')'' @ lit ''TPCH_DISTS'' @ lit ''_'' @ lit ''100000'') (collisions n @ t)"
  using assms
proof (induction n arbitrary: t)
  case 0
  then show ?case by simp
next
  case (Suc n)
  let ?cand = "lit '')'' @ lit ''TPCH_DISTS'' @ lit ''_'' @ lit ''100000''"
  let ?P' = "lit ''TPCH_DISTS'' @ lit ''_''"
  let ?s = "str_of_nat (Suc n)"
  let ?t' = "lit '')'' @ ?P' @ ?s @ t"
  from Suc.prems(1) have "Suc n < 10 ^ 5" by simp
  then have len: "length ?s \<le> 5" by (intro str_of_nat_short) simp_all
  have hd: "?t' = [] \<or> hd ?t' \<notin> set (lit ''100000'')" by (simp add: lit_def)
  have nosub: "\<not> sublist ?cand ?t'"
  proof
    assume "sublist ?cand ?t'"
    then have "sublist ?cand (41 # (?P' @ ?s) @ t)" by (simp add: lit_def)
    then have "prefix ?cand (41 # (?P' @ ?s) @ t) \<or> sublist ?cand ((?P' @ ?s) @ t)"
      by (simp only: sublist_Cons_right)
    then show False
    proof
      assume "prefix ?cand (41 # (?P' @ ?s) @ t)"
      then have "prefix (lit '')'' @ ?P' @ lit ''100000'') (lit '')'' @ ?P' @ ?s @ t)"
        by (simp add: lit_def)
      then have "prefix (lit ''100000'') (?s @ t)" by (simp only: same_prefix_prefix)
      with no_long_prefix [OF len Suc.prems(2)] show False by blast
    next
      assume a: "sublist ?cand ((?P' @ ?s) @ t)"
      have "hd ?cand = 41" by (simp add: lit_def)
      moreover have "41 \<notin> set (?P' @ ?s)"
        using str_of_nat_digits [of 41 "Suc n"] by (auto simp: lit_def)
      ultimately have h: "hd ?cand \<notin> set (?P' @ ?s)" by simp
      have ne: "?cand \<noteq> []" by (simp add: lit_def)
      from ne h a have "sublist ?cand t" by (rule sublist_skip_set)
      with Suc.prems(3) show False by blast
    qed
  qed
  from Suc.prems(1) have "n < 100000" by simp
  from Suc.IH [OF this hd nosub] show ?case by simp
qed


lemma decode_utf8_ascii: "\<forall>c \<in> set s. c < 128 \<Longrightarrow> decode_utf8 (utf8 s) = Inr s"
proof (induction s)
  case Nil
  show ?case by (simp add: decode_utf8.simps)
next
  case (Cons c s)
  then have c: "c < 128" and ih: "decode_utf8 (utf8 s) = Inr s" by simp_all
  from c have "c < 256" by simp
  then have v: "(of_char (char_of c :: char) :: nat) = c" by (rule byte_val)
  from c have u: "utf8 (c # s) = char_of c # utf8 s" by (simp add: utf8_Cons encode_cp_ascii)
  from c v have "decode_first (char_of c # utf8 s) = Some (c, utf8 s)" by (simp add: Let_def)
  with ih show ?case unfolding u by (subst decode_utf8.simps) simp
qed

lemma content_ascii:
  assumes "\<forall>c \<in> set s. c < 128" and "CR \<notin> set s" and "endswith s [LF]"
  shows "content (utf8 s) = s"
proof -
  from assms(2) have "universal_newlines s = s"
    by (simp add: universal_newlines_def str_replace_no_old)
  with decode_utf8_ascii [OF assms(1)] have "decode_input (utf8 s) = s"
    by (simp add: decode_input_def)
  with normalize_fixed [OF assms(2,3)] show ?thesis by (simp add: content_def)
qed

lemma content_collisions: "content (utf8 (collisions n @ [LF])) = collisions n @ [LF]"
proof (rule content_ascii)
  have "\<forall>c \<in> insert 41 delimiter_chars. c < 128 \<and> c \<noteq> CR"
    by (auto simp: delimiter_chars_def lit_def)
  with set_collisions [of n] have "\<forall>c \<in> set (collisions n). c < 128 \<and> c \<noteq> CR" by blast
  then show "\<forall>c \<in> set (collisions n @ [LF]). c < 128" and "CR \<notin> set (collisions n @ [LF])"
    by auto
  show "endswith (collisions n @ [LF]) [LF]" by (simp add: endswith_def)
qed

lemma str_of_nat_100000: "str_of_nat 100000 = lit ''100000''"
  by (simp add: str_of_nat.simps lit_def)

lemma choose_delimiter_collisions:
  "choose_delimiter (collisions 99999 @ [LF]) (lit ''TPCH_DISTS'') = Some (lit ''TPCH_DISTS_100000'')"
proof -
  let ?data = "collisions 99999 @ [LF]"
  let ?base = "lit ''TPCH_DISTS''"
  have all: "sublist (lit '')'' @ ?base @ lit ''_'' @ str_of_nat j) ?data"
    if "1 \<le> j" and "j < 100000" for j
  proof -
    from that have "sublist (lit '')'' @ ?base @ lit ''_'' @ str_of_nat j) (collisions 99999)"
      by (intro sublist_collisions) simp_all
    moreover have "sublist (collisions 99999) ?data" by (rule sublist_append_rightI)
    ultimately show ?thesis by (rule sublist_order.order_trans)
  qed
  have a: "sublist (lit '')'' @ ?base) (lit '')'' @ ?base @ lit ''_'' @ str_of_nat 1)"
    using sublist_append_rightI [of "lit '')'' @ ?base" "lit ''_'' @ str_of_nat 1"] by simp
  have b: "sublist (lit '')'' @ ?base @ lit ''_'' @ str_of_nat 1) ?data"
    by (rule all) simp_all
  from a b have base: "sublist (lit '')'' @ ?base) ?data"
    by (rule sublist_order.order_trans)
  have "\<not> sublist (lit '')'' @ ?base @ lit ''_'' @ lit ''100000'') (collisions 99999 @ [LF])"
    by (rule no_long_candidate) (simp_all add: lit_def sublist_code)
  then have free: "\<not> sublist (lit '')'' @ ?base @ lit ''_'' @ str_of_nat 100000) ?data"
    unfolding str_of_nat_100000 .
  from all have "\<forall>j. 1 \<le> j \<and> j < 100000 \<longrightarrow> sublist (lit '')'' @ ?base @ lit ''_'' @ str_of_nat j) ?data"
    by blast
  from loop_returns_first [OF free this]
  have "choose_delimiter_loop ?data ?base 1 = Some (?base @ lit ''_'' @ str_of_nat 100000)"
    by simp
  with base show ?thesis by (simp add: choose_delimiter_def str_of_nat_100000 lit_def)
qed

lemma utf8_e_acute: "utf8 [0xE9, 0x0A] = [CHR 0xC3, CHR 0xA9, CHR 0x0A]"
proof -
  have "char_of (195::nat) = CHR 0xC3" by (rule of_char_eqI [where ?'a = nat]) simp
  moreover have "char_of (169::nat) = CHR 0xA9" by (rule of_char_eqI [where ?'a = nat]) simp
  moreover have "char_of (10::nat) = CHR 0x0A" by (rule of_char_eqI [where ?'a = nat]) simp
  ultimately show ?thesis by (simp add: utf8_def encode_cp_def)
qed

lemma content_e_acute: "content [CHR 0xC3, CHR 0xA9, CHR 0x0A] = [0xE9, 0x0A]"
  by code_simp

lemma collisions_encodable: "list_all encodable (collisions n @ [LF])"
proof -
  have "\<forall>c \<in> insert 41 delimiter_chars. encodable c"
    by (auto simp: encodable_def dest: delimiter_chars_ascii)
  with set_collisions [of n] have "\<forall>c \<in> set (collisions n). encodable c" by blast
  with encodable_LF show ?thesis by (simp add: list_all_iff)
qed

lemma read_unit_e_acute:
  "read_unit (utf8 (render (lit ''dists.dss'') (lit ''TPCH_DISTS'') [0xE9, 0x0A]))
     = Some [CHR 0x0A, CHR 0xC3, CHR 0xA9, CHR 0x0A]"
proof -
  have dc: "set (lit ''TPCH_DISTS'') \<subseteq> delimiter_chars" by (simp add: delimiter_chars_def lit_def)
  have nd: "\<not> sublist (lit '')'' @ lit ''TPCH_DISTS'') [0xE9, 0x0A]"
    by (simp add: lit_def sublist_code)
  have enc: "list_all encodable [0xE9, 0x0A]" by (simp add: encodable_def)
  have nl: "\<not> sublist (lit ''*/'') (lit ''dists.dss'')" by code_simp
  have "read_unit (utf8 (render (lit ''dists.dss'') (lit ''TPCH_DISTS'') [0xE9, 0x0A]))
          = (if length (lit ''TPCH_DISTS'') \<le> 16 then Some (CHR 0x0A # utf8 [0xE9, 0x0A]) else None)"
    by (rule read_unit_render [OF dc nd _ _ enc lit_encodable nl]) (simp_all add: lit_def)
  then show ?thesis unfolding utf8_e_acute by (simp add: lit_def)
qed

lemma read_unit_collisions:
  "read_unit (utf8 (render (lit ''dists.dss'') (lit ''TPCH_DISTS_100000'') (collisions 99999 @ [LF])))
     = None"
proof -
  let ?data = "collisions 99999 @ [LF]"
  have dc: "set (lit ''TPCH_DISTS_100000'') \<subseteq> delimiter_chars"
    by (simp add: delimiter_chars_def lit_def)
  obtain d' where "choose_delimiter ?data (lit ''TPCH_DISTS'') = Some d'"
    and "\<not> sublist (lit '')'' @ d') ?data"
    by (rule chosen_delimiter_total)
  with choose_delimiter_collisions
  have nd: "\<not> sublist (lit '')'' @ lit ''TPCH_DISTS_100000'') ?data" by simp
  have nl: "\<not> sublist (lit ''*/'') (lit ''dists.dss'')" by code_simp
  have "read_unit (utf8 (render (lit ''dists.dss'') (lit ''TPCH_DISTS_100000'') ?data))
          = (if length (lit ''TPCH_DISTS_100000'') \<le> 16 then Some (CHR 0x0A # utf8 ?data) else None)"
    by (rule read_unit_render [OF dc nd _ _ collisions_encodable lit_encodable nl])
      (simp_all add: lit_def)
  then show ?thesis by (simp add: lit_def)
qed

lemma unit_comment_closed:
  "utf8 (render (lit ''d*/dists.dss'') (lit ''TPCH_DISTS'') (lit ''x\<newline>''))
     = ''/* Auto-generated from d*/dists.dss. */\<newline>#include <cstddef>\<newline>\<newline>extern \"C\" {\<newline>extern const char tpch_dists_data[] = R\"TPCH_DISTS(\<newline>x\<newline>)TPCH_DISTS\";\<newline>extern const size_t tpch_dists_size = sizeof(tpch_dists_data) - 1;\<newline>}  // extern \"C\"\<newline>''"
  by (simp add: utf8_render header_bytes_def trailer_bytes_def utf8_lit)

lemma read_unit_comment_closed:
  "read_unit ''/* Auto-generated from d*/dists.dss. */\<newline>#include <cstddef>\<newline>\<newline>extern \"C\" {\<newline>extern const char tpch_dists_data[] = R\"TPCH_DISTS(\<newline>x\<newline>)TPCH_DISTS\";\<newline>extern const size_t tpch_dists_size = sizeof(tpch_dists_data) - 1;\<newline>}  // extern \"C\"\<newline>''
     = None"
proof -
  have "skip_comment ''/* Auto-generated from d*/dists.dss. */\<newline>#include <cstddef>\<newline>\<newline>extern \"C\" {\<newline>extern const char tpch_dists_data[] = R\"TPCH_DISTS(\<newline>x\<newline>)TPCH_DISTS\";\<newline>extern const size_t tpch_dists_size = sizeof(tpch_dists_data) - 1;\<newline>}  // extern \"C\"\<newline>''
    = Some ''dists.dss. */\<newline>#include <cstddef>\<newline>\<newline>extern \"C\" {\<newline>extern const char tpch_dists_data[] = R\"TPCH_DISTS(\<newline>x\<newline>)TPCH_DISTS\";\<newline>extern const size_t tpch_dists_size = sizeof(tpch_dists_data) - 1;\<newline>}  // extern \"C\"\<newline>''"
    by (simp add: skip_comment_def)
  then show ?thesis by (simp add: read_unit_def strip_prefix_def declaration_bytes_def)
qed

lemma generated_collisions:
  "generated \<lparr>args_input = lit ''dists.dss'', args_output = lit ''out.cc'', args_label = None\<rparr>
     [lit ''dists.dss'' \<mapsto> utf8 (collisions 99999 @ [LF])]
   = Some (utf8 (render (lit ''dists.dss'') (lit ''TPCH_DISTS_100000'') (collisions 99999 @ [LF])))"
proof -
  let ?a = "\<lparr>args_input = lit ''dists.dss'', args_output = lit ''out.cc'', args_label = None\<rparr>"
  let ?big = "collisions 99999 @ [LF]"
  have la: "label_of ?a = lit ''dists.dss''" by (simp add: label_of_def)
  have c: "content (utf8 ?big) = ?big" by (rule content_collisions)
  have f: "[lit ''dists.dss'' \<mapsto> utf8 ?big] (args_input ?a) = Some (utf8 ?big)" by simp
  show ?thesis
    by (rule generated_eval [where files = "[lit ''dists.dss'' \<mapsto> utf8 ?big]" and a = ?a,
          OF f la lit_encodable c choose_delimiter_collisions])
qed

lemma generated_comment_closed:
  "generated \<lparr>args_input = lit ''d*/dists.dss'', args_output = lit ''out.cc'', args_label = None\<rparr>
     [lit ''d*/dists.dss'' \<mapsto> ''x\<newline>'']
   = Some ''/* Auto-generated from d*/dists.dss. */\<newline>#include <cstddef>\<newline>\<newline>extern \"C\" {\<newline>extern const char tpch_dists_data[] = R\"TPCH_DISTS(\<newline>x\<newline>)TPCH_DISTS\";\<newline>extern const size_t tpch_dists_size = sizeof(tpch_dists_data) - 1;\<newline>}  // extern \"C\"\<newline>''"
proof -
  let ?b = "\<lparr>args_input = lit ''d*/dists.dss'', args_output = lit ''out.cc'', args_label = None\<rparr>"
  have lb: "label_of ?b = lit ''d*/dists.dss''" by (simp add: label_of_def)
  have c: "content ''x\<newline>'' = lit ''x\<newline>''" by code_simp
  have d: "choose_delimiter (lit ''x\<newline>'') (lit ''TPCH_DISTS'') = Some (lit ''TPCH_DISTS'')"
    by code_simp
  have f: "[lit ''d*/dists.dss'' \<mapsto> ''x\<newline>''] (args_input ?b) = Some ''x\<newline>''" by simp
  have "generated ?b [lit ''d*/dists.dss'' \<mapsto> ''x\<newline>'']
          = Some (utf8 (render (lit ''d*/dists.dss'') (lit ''TPCH_DISTS'') (lit ''x\<newline>'')))"
    by (rule generated_eval [where files = "[lit ''d*/dists.dss'' \<mapsto> ''x\<newline>'']" and a = ?b,
          OF f lb lit_encodable c d])
  then show ?thesis unfolding unit_comment_closed .
qed

lemma generated_comment_spliced:
  assumes "e = LF \<or> e = CR"
  shows "generated \<lparr>args_input = lit ''dists.dss'', args_output = lit ''out.cc'', args_label = Some (lit ''d*'' @ [0x5C, e] @ lit ''/x'')\<rparr>
           [lit ''dists.dss'' \<mapsto> ''x\<newline>'']
         = Some (utf8 (render (lit ''d*'' @ [0x5C, e] @ lit ''/x'') (lit ''TPCH_DISTS'') (lit ''x\<newline>'')))"
proof -
  let ?s = "\<lparr>args_input = lit ''dists.dss'', args_output = lit ''out.cc'', args_label = Some (lit ''d*'' @ [0x5C, e] @ lit ''/x'')\<rparr>"
  let ?l = "lit ''d*'' @ [0x5C, e] @ lit ''/x''"
  have ls: "label_of ?s = ?l" by (simp add: label_of_def)
  from assms have "encodable e" by (auto simp: encodable_def)
  then have en: "list_all encodable ?l" using lit_encodable by (simp add: encodable_def)
  have c: "content ''x\<newline>'' = lit ''x\<newline>''" by code_simp
  have d: "choose_delimiter (lit ''x\<newline>'') (lit ''TPCH_DISTS'') = Some (lit ''TPCH_DISTS'')"
    by code_simp
  have f: "[lit ''dists.dss'' \<mapsto> ''x\<newline>''] (args_input ?s) = Some ''x\<newline>''" by simp
  show ?thesis
    by (rule generated_eval [where files = "[lit ''dists.dss'' \<mapsto> ''x\<newline>'']" and a = ?s,
          OF f ls en c d])
qed

lemma read_unit_comment_spliced:
  assumes "e = LF \<or> e = CR"
  shows "read_unit (utf8 (render (lit ''d*'' @ [0x5C, e] @ lit ''/x'') (lit ''TPCH_DISTS'') (lit ''x\<newline>''))) = None"
proof -
  have b: "char_of (0x5C::nat) = CHR 0x5C" by (rule of_char_eqI [where ?'a = nat]) simp
  have lf: "char_of (10::nat) = CHR 0x0A" by (rule of_char_eqI [where ?'a = nat]) simp
  have cr: "char_of (13::nat) = CHR 0x0D" by (rule of_char_eqI [where ?'a = nat]) simp
  from assms have "utf8 [0x5C, e] = [CHR 0x5C, char_of e]"
    using utf8_ascii [of "[0x5C, e]"] b by auto
  with assms lf cr obtain c where c: "c = CHR 0x0A \<or> c = CHR 0x0D"
    and u: "utf8 [0x5C, e] = [CHR 0x5C, c]" by auto
  have "utf8 (render (lit ''d*'' @ [0x5C, e] @ lit ''/x'') (lit ''TPCH_DISTS'') (lit ''x\<newline>''))
          = ''/* Auto-generated from d*'' @ [CHR 0x5C, c] @ ''/x. */'' @ declaration_bytes
            @ ''TPCH_DISTS(\<newline>x\<newline>)TPCH_DISTS\"'' @ trailer_bytes"
  proof -
    have "utf8 (lit ''d*'') = ''d*''" and "utf8 (lit ''/x'') = ''/x''"
      by (rule utf8_lit, simp)+
    then have ul: "utf8 (lit ''d*'' @ [0x5C, e] @ lit ''/x'') = ''d*'' @ [CHR 0x5C, c] @ ''/x''"
      unfolding utf8_append u by simp
    show ?thesis
      unfolding utf8_render header_bytes_def ul
      by (simp add: trailer_bytes_def declaration_bytes_def utf8_lit)
  qed
  moreover have "skip_comment (''/* Auto-generated from d*'' @ [CHR 0x5C, c] @ ''/x. */'' @ t)
                   = Some (''x. */'' @ t)" for t
    using c by (auto simp: skip_comment_def)
  moreover have "strip_prefix declaration_bytes (''x. */'' @ t) = None" for t
    by (simp add: strip_prefix_def declaration_bytes_def)
  ultimately show ?thesis by (simp add: read_unit_def)
qed

subsection \<open>The array and the size symbol\<close>

text \<open>
  C9, as the code has it. For every input file whose delimiter, as \<open>choose_delimiter\<close>
  returns it, has at most 16 characters, and every label that can be written, is on one
  line (no \<^verbatim>\<open>\n\<close>, no \<^verbatim>\<open>\r\<close>) and contains no \<^verbatim>\<open>*/\<close>, the array \<^verbatim>\<open>tpch_dists_data\<close> of
  the generated unit holds one newline, the one behind the opening marker in the template,
  followed by the UTF-8 bytes of the normalized content: without the terminating NUL it is
  one byte longer than the content is in bytes, which is \<open>len(Content) + 1\<close> when the
  content is ASCII.
\<close>

theorem data_array_leading_newline:
  assumes "files (args_input a) = Some raw" and "list_all encodable (label_of a)"
    and "\<not> sublist (lit ''*/'') (label_of a)"
    and "LF \<notin> set (label_of a)" and "CR \<notin> set (label_of a)"
    and "choose_delimiter (content raw) (lit ''TPCH_DISTS'') = Some d" and "length d \<le> 16"
  shows "\<exists>unit. generated a files = Some unit
           \<and> tpch_dists_data unit = Some (CHR 0x0A # utf8 (content raw))
           \<and> map_option length (tpch_dists_data unit) = Some (length (utf8 (content raw)) + 1)
           \<and> sizeof_tpch_dists_data unit = Some (length (utf8 (content raw)) + 1 + 1)
           \<and> ((\<forall>c \<in> set (content raw). c < 128) \<longrightarrow>
                 map_option length (tpch_dists_data unit) = Some (length (content raw) + 1))"
proof -
  from assms(1,2,3,4,5) obtain d' unit where d': "choose_delimiter (content raw) (lit ''TPCH_DISTS'') = Some d'"
    and g: "generated a files = Some unit"
    and r': "read_unit unit = (if length d' \<le> 16 then Some (CHR 0x0A # utf8 (content raw)) else None)"
    by (rule generated_read_unit [where files = files and a = a])
  from d' assms(6) have "d' = d" by simp
  with r' assms(7) have r: "read_unit unit = Some (CHR 0x0A # utf8 (content raw))" by simp
  from symbols_of_read_unit [OF r]
  have t: "tpch_dists_data unit = Some (CHR 0x0A # utf8 (content raw))"
    and s: "sizeof_tpch_dists_data unit = Some (length (CHR 0x0A # utf8 (content raw)) + 1)"
    by blast+
  from t have l: "map_option length (tpch_dists_data unit) = Some (length (utf8 (content raw)) + 1)"
    by simp
  have "map_option length (tpch_dists_data unit) = Some (length (content raw) + 1)"
    if "\<forall>c \<in> set (content raw). c < 128"
    using l length_utf8_ascii [OF that] by simp
  with g t l s show ?thesis by auto
qed

theorem data_array_leading_newline_witness:
  "[lit ''dists.dss'' \<mapsto> ''hello'' @ [CHR 0x0D, CHR 0x0A] @ ''world'' @ [CHR 0x0D, CHR 0x0A]]
       (args_input \<lparr>args_input = lit ''dists.dss'', args_output = lit ''out.cc'', args_label = None\<rparr>)
     = Some (''hello'' @ [CHR 0x0D, CHR 0x0A] @ ''world'' @ [CHR 0x0D, CHR 0x0A])
   \<and> list_all encodable
        (label_of \<lparr>args_input = lit ''dists.dss'', args_output = lit ''out.cc'', args_label = None\<rparr>)
   \<and> \<not> sublist (lit ''*/'')
        (label_of \<lparr>args_input = lit ''dists.dss'', args_output = lit ''out.cc'', args_label = None\<rparr>)
   \<and> LF \<notin> set (label_of \<lparr>args_input = lit ''dists.dss'', args_output = lit ''out.cc'', args_label = None\<rparr>)
   \<and> CR \<notin> set (label_of \<lparr>args_input = lit ''dists.dss'', args_output = lit ''out.cc'', args_label = None\<rparr>)
   \<and> choose_delimiter (content (''hello'' @ [CHR 0x0D, CHR 0x0A] @ ''world'' @ [CHR 0x0D, CHR 0x0A]))
        (lit ''TPCH_DISTS'') = Some (lit ''TPCH_DISTS'')
   \<and> length (lit ''TPCH_DISTS'') \<le> 16
   \<and> list_all (\<lambda>c. c < 128)
        (content (''hello'' @ [CHR 0x0D, CHR 0x0A] @ ''world'' @ [CHR 0x0D, CHR 0x0A]))
   \<and> (\<exists>unit.
         generated \<lparr>args_input = lit ''dists.dss'', args_output = lit ''out.cc'', args_label = None\<rparr>
           [lit ''dists.dss'' \<mapsto> ''hello'' @ [CHR 0x0D, CHR 0x0A] @ ''world'' @ [CHR 0x0D, CHR 0x0A]]
           = Some unit
         \<and> tpch_dists_data unit = Some ''\<newline>hello\<newline>world\<newline>''
         \<and> map_option length (tpch_dists_data unit) = Some 13
         \<and> length (content (''hello'' @ [CHR 0x0D, CHR 0x0A] @ ''world'' @ [CHR 0x0D, CHR 0x0A])) = 12)"
proof -
  let ?raw = "''hello'' @ [CHR 0x0D, CHR 0x0A] @ ''world'' @ [CHR 0x0D, CHR 0x0A]"
  let ?a = "\<lparr>args_input = lit ''dists.dss'', args_output = lit ''out.cc'', args_label = None\<rparr>"
  let ?files = "[lit ''dists.dss'' \<mapsto> ?raw]"
  have f: "?files (args_input ?a) = Some ?raw" by simp
  have e: "list_all encodable (label_of ?a)" by (simp add: label_of_def lit_encodable)
  have n: "\<not> sublist (lit ''*/'') (label_of ?a)" by (simp add: label_of_def) code_simp
  have lf: "LF \<notin> set (label_of ?a)" by (simp add: label_of_def lit_def)
  have cr: "CR \<notin> set (label_of ?a)" by (simp add: label_of_def lit_def)
  have d: "choose_delimiter (content ?raw) (lit ''TPCH_DISTS'') = Some (lit ''TPCH_DISTS'')"
    unfolding content_hello by code_simp
  have dl: "length (lit ''TPCH_DISTS'') \<le> 16" by (simp add: lit_def)
  have a: "list_all (\<lambda>c. c < 128) (content ?raw)" unfolding content_hello by (simp add: lit_def)
  have u: "utf8 (lit ''hello\<newline>world\<newline>'') = ''hello\<newline>world\<newline>''"
    by (rule utf8_lit) simp
  have k: "length (content ?raw) = 12" unfolding content_hello by (simp add: lit_def)
  from data_array_leading_newline [of ?files ?a ?raw, OF f e n lf cr d dl]
  obtain unit where g: "generated ?a ?files = Some unit"
    and t: "tpch_dists_data unit = Some (CHR 0x0A # utf8 (content ?raw))"
    and l: "map_option length (tpch_dists_data unit) = Some (length (utf8 (content ?raw)) + 1)"
    by blast
  from t have t': "tpch_dists_data unit = Some ''\<newline>hello\<newline>world\<newline>''"
    unfolding content_hello u by simp
  have s: "length (utf8 (content ?raw)) + 1 = 13" unfolding content_hello by (simp add: utf8_lit)
  from l have l': "map_option length (tpch_dists_data unit) = Some 13" unfolding s .
  from f e n lf cr d dl a g t' l' k show ?thesis by blast
qed

text \<open>
  For every input, and with \<open>len(Content)\<close> as the length of the content in characters, C9
  fails.
  \<^item> The input \<^verbatim>\<open>C3 A9 0A\<close> (an e with acute accent and a newline) has a content of 2
    characters, and the array has 4 bytes, not 3.
  \<^item> On the input in which the suffixes 1 to 99999 all collide the delimiter is
    \<^verbatim>\<open>TPCH_DISTS_100000\<close>, of 17 characters: the unit is written, and it is not well-formed
    C++, so there is no array.
  \<^item> With the input path \<^verbatim>\<open>d*/dists.dss\<close> and no \<^verbatim>\<open>--label\<close> the header comment ends inside
    the label, and again the unit has no array.
  \<^item> The same happens with a label in which a backslash and a line end (\<^verbatim>\<open>\n\<close> or \<^verbatim>\<open>\r\<close>)
    stand between \<^verbatim>\<open>*\<close> and \<^verbatim>\<open>/\<close>.
\<close>

theorem data_array_counterexample:
  "content [CHR 0xC3, CHR 0xA9, CHR 0x0A] = [0xE9, 0x0A]
   \<and> length (content [CHR 0xC3, CHR 0xA9, CHR 0x0A]) + 1 = 3
   \<and> Option.bind
        (generated \<lparr>args_input = lit ''dists.dss'', args_output = lit ''out.cc'', args_label = None\<rparr>
           [lit ''dists.dss'' \<mapsto> [CHR 0xC3, CHR 0xA9, CHR 0x0A]])
        tpch_dists_data = Some [CHR 0x0A, CHR 0xC3, CHR 0xA9, CHR 0x0A]
   \<and> length [CHR 0x0A, CHR 0xC3, CHR 0xA9, CHR 0x0A] = 4
   \<and> choose_delimiter (content (utf8 (collisions 99999 @ [LF]))) (lit ''TPCH_DISTS'')
       = Some (lit ''TPCH_DISTS_100000'')
   \<and> length (lit ''TPCH_DISTS_100000'') = 17
   \<and> generated \<lparr>args_input = lit ''dists.dss'', args_output = lit ''out.cc'', args_label = None\<rparr>
         [lit ''dists.dss'' \<mapsto> utf8 (collisions 99999 @ [LF])]
       = Some (utf8 (render (lit ''dists.dss'') (lit ''TPCH_DISTS_100000'') (collisions 99999 @ [LF])))
   \<and> tpch_dists_data
         (utf8 (render (lit ''dists.dss'') (lit ''TPCH_DISTS_100000'') (collisions 99999 @ [LF])))
       = None
   \<and> generated \<lparr>args_input = lit ''d*/dists.dss'', args_output = lit ''out.cc'', args_label = None\<rparr>
         [lit ''d*/dists.dss'' \<mapsto> ''x\<newline>'']
       = Some ''/* Auto-generated from d*/dists.dss. */\<newline>#include <cstddef>\<newline>\<newline>extern \"C\" {\<newline>extern const char tpch_dists_data[] = R\"TPCH_DISTS(\<newline>x\<newline>)TPCH_DISTS\";\<newline>extern const size_t tpch_dists_size = sizeof(tpch_dists_data) - 1;\<newline>}  // extern \"C\"\<newline>''
   \<and> tpch_dists_data ''/* Auto-generated from d*/dists.dss. */\<newline>#include <cstddef>\<newline>\<newline>extern \"C\" {\<newline>extern const char tpch_dists_data[] = R\"TPCH_DISTS(\<newline>x\<newline>)TPCH_DISTS\";\<newline>extern const size_t tpch_dists_size = sizeof(tpch_dists_data) - 1;\<newline>}  // extern \"C\"\<newline>''
       = None
   \<and> generated \<lparr>args_input = lit ''dists.dss'', args_output = lit ''out.cc'', args_label = Some (lit ''d*'' @ [0x5C, LF] @ lit ''/x'')\<rparr>
         [lit ''dists.dss'' \<mapsto> ''x\<newline>'']
       = Some (utf8 (render (lit ''d*'' @ [0x5C, LF] @ lit ''/x'') (lit ''TPCH_DISTS'') (lit ''x\<newline>'')))
   \<and> tpch_dists_data
         (utf8 (render (lit ''d*'' @ [0x5C, LF] @ lit ''/x'') (lit ''TPCH_DISTS'') (lit ''x\<newline>'')))
       = None
   \<and> generated \<lparr>args_input = lit ''dists.dss'', args_output = lit ''out.cc'', args_label = Some (lit ''d*'' @ [0x5C, CR] @ lit ''/x'')\<rparr>
         [lit ''dists.dss'' \<mapsto> ''x\<newline>'']
       = Some (utf8 (render (lit ''d*'' @ [0x5C, CR] @ lit ''/x'') (lit ''TPCH_DISTS'') (lit ''x\<newline>'')))
   \<and> tpch_dists_data
         (utf8 (render (lit ''d*'' @ [0x5C, CR] @ lit ''/x'') (lit ''TPCH_DISTS'') (lit ''x\<newline>'')))
       = None"
proof -
  let ?a = "\<lparr>args_input = lit ''dists.dss'', args_output = lit ''out.cc'', args_label = None\<rparr>"
  let ?e = "[CHR 0xC3, CHR 0xA9, CHR 0x0A]"
  let ?big = "collisions 99999 @ [LF]"
  have la: "label_of ?a = lit ''dists.dss''" by (simp add: label_of_def)
  \<comment> \<open>a content that is not ASCII\<close>
  have c1: "content ?e = [0xE9, 0x0A]" by (rule content_e_acute)
  have n1: "length (content ?e) + 1 = 3" unfolding c1 by simp
  have d1: "choose_delimiter [0xE9, 0x0A] (lit ''TPCH_DISTS'') = Some (lit ''TPCH_DISTS'')"
    by (simp add: choose_delimiter_def lit_def sublist_code)
  have f1: "[lit ''dists.dss'' \<mapsto> ?e] (args_input ?a) = Some ?e" by simp
  have g1: "generated ?a [lit ''dists.dss'' \<mapsto> ?e]
              = Some (utf8 (render (lit ''dists.dss'') (lit ''TPCH_DISTS'') [0xE9, 0x0A]))"
    by (rule generated_eval [where files = "[lit ''dists.dss'' \<mapsto> ?e]" and a = ?a,
          OF f1 la lit_encodable c1 d1])
  have t1: "Option.bind (generated ?a [lit ''dists.dss'' \<mapsto> ?e]) tpch_dists_data
              = Some [CHR 0x0A, CHR 0xC3, CHR 0xA9, CHR 0x0A]"
    unfolding g1 by (simp add: tpch_dists_data_def read_unit_e_acute)
  have l1: "length [CHR 0x0A, CHR 0xC3, CHR 0xA9, CHR 0x0A] = 4" by simp
  \<comment> \<open>a delimiter of 17 characters\<close>
  have c2: "content (utf8 ?big) = ?big" by (rule content_collisions)
  have d2: "choose_delimiter (content (utf8 ?big)) (lit ''TPCH_DISTS'') = Some (lit ''TPCH_DISTS_100000'')"
    unfolding c2 by (rule choose_delimiter_collisions)
  have n2: "length (lit ''TPCH_DISTS_100000'') = 17" by (simp add: lit_def)
  note g2 = generated_collisions
  have t2: "tpch_dists_data (utf8 (render (lit ''dists.dss'') (lit ''TPCH_DISTS_100000'') (collisions 99999 @ [LF]))) = None"
    by (rule symbols_of_unread_unit(1) [OF read_unit_collisions])
  \<comment> \<open>labels that close the comment\<close>
  note g3 = generated_comment_closed
  have t3: "tpch_dists_data ''/* Auto-generated from d*/dists.dss. */\<newline>#include <cstddef>\<newline>\<newline>extern \"C\" {\<newline>extern const char tpch_dists_data[] = R\"TPCH_DISTS(\<newline>x\<newline>)TPCH_DISTS\";\<newline>extern const size_t tpch_dists_size = sizeof(tpch_dists_data) - 1;\<newline>}  // extern \"C\"\<newline>'' = None"
    by (rule symbols_of_unread_unit(1) [OF read_unit_comment_closed])
  have g4: "generated \<lparr>args_input = lit ''dists.dss'', args_output = lit ''out.cc'', args_label = Some (lit ''d*'' @ [0x5C, LF] @ lit ''/x'')\<rparr>
              [lit ''dists.dss'' \<mapsto> ''x\<newline>'']
            = Some (utf8 (render (lit ''d*'' @ [0x5C, LF] @ lit ''/x'') (lit ''TPCH_DISTS'') (lit ''x\<newline>'')))"
    by (rule generated_comment_spliced) simp
  have t4: "tpch_dists_data (utf8 (render (lit ''d*'' @ [0x5C, LF] @ lit ''/x'') (lit ''TPCH_DISTS'') (lit ''x\<newline>''))) = None"
    by (rule symbols_of_unread_unit(1), rule read_unit_comment_spliced) simp
  have g5: "generated \<lparr>args_input = lit ''dists.dss'', args_output = lit ''out.cc'', args_label = Some (lit ''d*'' @ [0x5C, CR] @ lit ''/x'')\<rparr>
              [lit ''dists.dss'' \<mapsto> ''x\<newline>'']
            = Some (utf8 (render (lit ''d*'' @ [0x5C, CR] @ lit ''/x'') (lit ''TPCH_DISTS'') (lit ''x\<newline>'')))"
    by (rule generated_comment_spliced) simp
  have t5: "tpch_dists_data (utf8 (render (lit ''d*'' @ [0x5C, CR] @ lit ''/x'') (lit ''TPCH_DISTS'') (lit ''x\<newline>''))) = None"
    by (rule symbols_of_unread_unit(1), rule read_unit_comment_spliced) simp
  from c1 n1 t1 l1 d2 n2 g2 t2 g3 t3 g4 t4 g5 t5 show ?thesis by (intro conjI)
qed

text \<open>
  C1, as the code has it. For every input file whose delimiter, as \<open>choose_delimiter\<close>
  returns it, has at most 16 characters, and every label that can be written, is on one
  line (no \<^verbatim>\<open>\n\<close>, no \<^verbatim>\<open>\r\<close>) and contains no \<^verbatim>\<open>*/\<close>, the size value of the generated
  unit (\<^verbatim>\<open>tpch_dists_size\<close>, that is \<^verbatim>\<open>sizeof(tpch_dists_data) - 1\<close>) is the length in bytes
  of the normalized content plus one, for the newline the template writes behind the
  opening marker: 13 for the input \<^verbatim>\<open>"hello\r\nworld\r\n"\<close> and 2 for the empty file.
\<close>

theorem size_symbol_value:
  assumes "files (args_input a) = Some raw" and "list_all encodable (label_of a)"
    and "\<not> sublist (lit ''*/'') (label_of a)"
    and "LF \<notin> set (label_of a)" and "CR \<notin> set (label_of a)"
    and "choose_delimiter (content raw) (lit ''TPCH_DISTS'') = Some d" and "length d \<le> 16"
  shows "\<exists>unit. generated a files = Some unit
           \<and> tpch_dists_size unit = Some (length (utf8 (content raw)) + 1)"
proof -
  from assms(1,2,3,4,5) obtain d' unit where d': "choose_delimiter (content raw) (lit ''TPCH_DISTS'') = Some d'"
    and g: "generated a files = Some unit"
    and r': "read_unit unit = (if length d' \<le> 16 then Some (CHR 0x0A # utf8 (content raw)) else None)"
    by (rule generated_read_unit [where files = files and a = a])
  from d' assms(6) have "d' = d" by simp
  with r' assms(7) have r: "read_unit unit = Some (CHR 0x0A # utf8 (content raw))" by simp
  from symbols_of_read_unit(3) [OF r]
  have "tpch_dists_size unit = Some (length (utf8 (content raw)) + 1)" by simp
  with g show ?thesis by blast
qed

theorem size_symbol_value_witness:
  "[lit ''dists.dss'' \<mapsto> ''hello'' @ [CHR 0x0D, CHR 0x0A] @ ''world'' @ [CHR 0x0D, CHR 0x0A]]
       (args_input \<lparr>args_input = lit ''dists.dss'', args_output = lit ''out.cc'', args_label = None\<rparr>)
     = Some (''hello'' @ [CHR 0x0D, CHR 0x0A] @ ''world'' @ [CHR 0x0D, CHR 0x0A])
   \<and> [lit ''dists.dss'' \<mapsto> ([] :: bytes)]
       (args_input \<lparr>args_input = lit ''dists.dss'', args_output = lit ''out.cc'', args_label = None\<rparr>)
     = Some []
   \<and> list_all encodable
        (label_of \<lparr>args_input = lit ''dists.dss'', args_output = lit ''out.cc'', args_label = None\<rparr>)
   \<and> \<not> sublist (lit ''*/'')
        (label_of \<lparr>args_input = lit ''dists.dss'', args_output = lit ''out.cc'', args_label = None\<rparr>)
   \<and> LF \<notin> set (label_of \<lparr>args_input = lit ''dists.dss'', args_output = lit ''out.cc'', args_label = None\<rparr>)
   \<and> CR \<notin> set (label_of \<lparr>args_input = lit ''dists.dss'', args_output = lit ''out.cc'', args_label = None\<rparr>)
   \<and> choose_delimiter (content (''hello'' @ [CHR 0x0D, CHR 0x0A] @ ''world'' @ [CHR 0x0D, CHR 0x0A]))
        (lit ''TPCH_DISTS'') = Some (lit ''TPCH_DISTS'')
   \<and> choose_delimiter (content []) (lit ''TPCH_DISTS'') = Some (lit ''TPCH_DISTS'')
   \<and> length (lit ''TPCH_DISTS'') \<le> 16
   \<and> (\<exists>unit.
         generated \<lparr>args_input = lit ''dists.dss'', args_output = lit ''out.cc'', args_label = None\<rparr>
           [lit ''dists.dss'' \<mapsto> ''hello'' @ [CHR 0x0D, CHR 0x0A] @ ''world'' @ [CHR 0x0D, CHR 0x0A]]
           = Some unit
         \<and> tpch_dists_size unit = Some 13)
   \<and> (\<exists>unit.
         generated \<lparr>args_input = lit ''dists.dss'', args_output = lit ''out.cc'', args_label = None\<rparr>
           [lit ''dists.dss'' \<mapsto> []] = Some unit
         \<and> tpch_dists_size unit = Some 2)"
proof -
  let ?raw = "''hello'' @ [CHR 0x0D, CHR 0x0A] @ ''world'' @ [CHR 0x0D, CHR 0x0A]"
  let ?a = "\<lparr>args_input = lit ''dists.dss'', args_output = lit ''out.cc'', args_label = None\<rparr>"
  let ?files = "[lit ''dists.dss'' \<mapsto> ?raw]"
  let ?empty = "[lit ''dists.dss'' \<mapsto> []] :: fs"
  have f: "?files (args_input ?a) = Some ?raw" by simp
  have f0: "?empty (args_input ?a) = Some []" by simp
  have e: "list_all encodable (label_of ?a)" by (simp add: label_of_def lit_encodable)
  have n: "\<not> sublist (lit ''*/'') (label_of ?a)" by (simp add: label_of_def) code_simp
  have lf: "LF \<notin> set (label_of ?a)" by (simp add: label_of_def lit_def)
  have cr: "CR \<notin> set (label_of ?a)" by (simp add: label_of_def lit_def)
  have d: "choose_delimiter (content ?raw) (lit ''TPCH_DISTS'') = Some (lit ''TPCH_DISTS'')"
    unfolding content_hello by code_simp
  have d0: "choose_delimiter (content []) (lit ''TPCH_DISTS'') = Some (lit ''TPCH_DISTS'')"
    unfolding content_empty by code_simp
  have dl: "length (lit ''TPCH_DISTS'') \<le> 16" by (simp add: lit_def)
  have s: "length (utf8 (content ?raw)) + 1 = 13" unfolding content_hello by (simp add: utf8_lit)
  have s0: "length (utf8 (content [])) + 1 = 2" unfolding content_empty by (simp add: utf8_lit)
  from size_symbol_value [of ?files ?a ?raw, OF f e n lf cr d dl]
  have h: "\<exists>unit. generated ?a ?files = Some unit \<and> tpch_dists_size unit = Some 13"
    unfolding s .
  from size_symbol_value [of ?empty ?a "[]", OF f0 e n lf cr d0 dl]
  have h0: "\<exists>unit. generated ?a ?empty = Some unit \<and> tpch_dists_size unit = Some 2"
    unfolding s0 .
  from f f0 e n lf cr d d0 dl h h0 show ?thesis by blast
qed

text \<open>
  With the length of the content itself as the size, C1 fails: the content of the input
  \<^verbatim>\<open>"hello\r\nworld\r\n"\<close> has 12 bytes and the size symbol is 13; the content of the
  empty file has 1 byte and the size symbol is 2. For every input file it fails as well:
  there is no size value in a unit that is not well-formed C++, and such a unit is written
  for the input in which the suffixes 1 to 99999 all collide (the delimiter has 17
  characters) and for a label that ends the header comment (the input path
  \<^verbatim>\<open>d*/dists.dss\<close>, or a label in which a backslash and a line end stand between \<^verbatim>\<open>*\<close>
  and \<^verbatim>\<open>/\<close>).
\<close>

theorem size_symbol_counterexample:
  "length (utf8 (content (''hello'' @ [CHR 0x0D, CHR 0x0A] @ ''world'' @ [CHR 0x0D, CHR 0x0A]))) = 12
   \<and> Option.bind
        (generated \<lparr>args_input = lit ''dists.dss'', args_output = lit ''out.cc'', args_label = None\<rparr>
           [lit ''dists.dss'' \<mapsto> ''hello'' @ [CHR 0x0D, CHR 0x0A] @ ''world'' @ [CHR 0x0D, CHR 0x0A]])
        tpch_dists_size = Some 13
   \<and> length (utf8 (content [])) = 1
   \<and> Option.bind
        (generated \<lparr>args_input = lit ''dists.dss'', args_output = lit ''out.cc'', args_label = None\<rparr>
           [lit ''dists.dss'' \<mapsto> []])
        tpch_dists_size = Some 2
   \<and> generated \<lparr>args_input = lit ''dists.dss'', args_output = lit ''out.cc'', args_label = None\<rparr>
         [lit ''dists.dss'' \<mapsto> utf8 (collisions 99999 @ [LF])]
       = Some (utf8 (render (lit ''dists.dss'') (lit ''TPCH_DISTS_100000'') (collisions 99999 @ [LF])))
   \<and> tpch_dists_size
         (utf8 (render (lit ''dists.dss'') (lit ''TPCH_DISTS_100000'') (collisions 99999 @ [LF])))
       = None
   \<and> generated \<lparr>args_input = lit ''d*/dists.dss'', args_output = lit ''out.cc'', args_label = None\<rparr>
         [lit ''d*/dists.dss'' \<mapsto> ''x\<newline>'']
       = Some ''/* Auto-generated from d*/dists.dss. */\<newline>#include <cstddef>\<newline>\<newline>extern \"C\" {\<newline>extern const char tpch_dists_data[] = R\"TPCH_DISTS(\<newline>x\<newline>)TPCH_DISTS\";\<newline>extern const size_t tpch_dists_size = sizeof(tpch_dists_data) - 1;\<newline>}  // extern \"C\"\<newline>''
   \<and> tpch_dists_size ''/* Auto-generated from d*/dists.dss. */\<newline>#include <cstddef>\<newline>\<newline>extern \"C\" {\<newline>extern const char tpch_dists_data[] = R\"TPCH_DISTS(\<newline>x\<newline>)TPCH_DISTS\";\<newline>extern const size_t tpch_dists_size = sizeof(tpch_dists_data) - 1;\<newline>}  // extern \"C\"\<newline>''
       = None
   \<and> generated \<lparr>args_input = lit ''dists.dss'', args_output = lit ''out.cc'', args_label = Some (lit ''d*'' @ [0x5C, LF] @ lit ''/x'')\<rparr>
         [lit ''dists.dss'' \<mapsto> ''x\<newline>'']
       = Some (utf8 (render (lit ''d*'' @ [0x5C, LF] @ lit ''/x'') (lit ''TPCH_DISTS'') (lit ''x\<newline>'')))
   \<and> tpch_dists_size
         (utf8 (render (lit ''d*'' @ [0x5C, LF] @ lit ''/x'') (lit ''TPCH_DISTS'') (lit ''x\<newline>'')))
       = None
   \<and> generated \<lparr>args_input = lit ''dists.dss'', args_output = lit ''out.cc'', args_label = Some (lit ''d*'' @ [0x5C, CR] @ lit ''/x'')\<rparr>
         [lit ''dists.dss'' \<mapsto> ''x\<newline>'']
       = Some (utf8 (render (lit ''d*'' @ [0x5C, CR] @ lit ''/x'') (lit ''TPCH_DISTS'') (lit ''x\<newline>'')))
   \<and> tpch_dists_size
         (utf8 (render (lit ''d*'' @ [0x5C, CR] @ lit ''/x'') (lit ''TPCH_DISTS'') (lit ''x\<newline>'')))
       = None"
proof -
  let ?raw = "''hello'' @ [CHR 0x0D, CHR 0x0A] @ ''world'' @ [CHR 0x0D, CHR 0x0A]"
  let ?a = "\<lparr>args_input = lit ''dists.dss'', args_output = lit ''out.cc'', args_label = None\<rparr>"
  let ?files = "[lit ''dists.dss'' \<mapsto> ?raw]"
  let ?empty = "[lit ''dists.dss'' \<mapsto> []] :: fs"
  have f: "?files (args_input ?a) = Some ?raw" by simp
  have f0: "?empty (args_input ?a) = Some []" by simp
  have e: "list_all encodable (label_of ?a)" by (simp add: label_of_def lit_encodable)
  have n: "\<not> sublist (lit ''*/'') (label_of ?a)" by (simp add: label_of_def) code_simp
  have lf: "LF \<notin> set (label_of ?a)" by (simp add: label_of_def lit_def)
  have cr: "CR \<notin> set (label_of ?a)" by (simp add: label_of_def lit_def)
  have dl: "length (lit ''TPCH_DISTS'') \<le> 16" by (simp add: lit_def)
  have u: "length (utf8 (content ?raw)) = 12" unfolding content_hello by (simp add: utf8_lit)
  have u0: "length (utf8 (content [])) = 1" unfolding content_empty by (simp add: utf8_lit)
  from f e n lf cr obtain d unit where d: "choose_delimiter (content ?raw) (lit ''TPCH_DISTS'') = Some d"
    and g: "generated ?a ?files = Some unit"
    and r: "read_unit unit = (if length d \<le> 16 then Some (CHR 0x0A # utf8 (content ?raw)) else None)"
    by (rule generated_read_unit [where files = ?files and a = ?a])
  have "choose_delimiter (content ?raw) (lit ''TPCH_DISTS'') = Some (lit ''TPCH_DISTS'')"
    unfolding content_hello by code_simp
  with d have "d = lit ''TPCH_DISTS''" by simp
  with r dl have r': "read_unit unit = Some (CHR 0x0A # utf8 (content ?raw))" by simp
  have s: "length (CHR 0x0A # utf8 (content ?raw)) = 13"
    unfolding content_hello by (simp add: utf8_lit)
  from symbols_of_read_unit(3) [OF r'] have "tpch_dists_size unit = Some 13" unfolding s .
  with g have h: "Option.bind (generated ?a ?files) tpch_dists_size = Some 13" by simp
  from f0 e n lf cr obtain d0 unit0 where d0: "choose_delimiter (content []) (lit ''TPCH_DISTS'') = Some d0"
    and g0: "generated ?a ?empty = Some unit0"
    and r0: "read_unit unit0 = (if length d0 \<le> 16 then Some (CHR 0x0A # utf8 (content [])) else None)"
    by (rule generated_read_unit [where files = ?empty and a = ?a])
  have "choose_delimiter (content []) (lit ''TPCH_DISTS'') = Some (lit ''TPCH_DISTS'')"
    unfolding content_empty by code_simp
  with d0 have "d0 = lit ''TPCH_DISTS''" by simp
  with r0 dl have r0': "read_unit unit0 = Some (CHR 0x0A # utf8 (content []))" by simp
  have s0: "length (CHR 0x0A # utf8 (content [])) = 2"
    unfolding content_empty by (simp add: utf8_lit)
  from symbols_of_read_unit(3) [OF r0'] have "tpch_dists_size unit0 = Some 2" unfolding s0 .
  with g0 have h0: "Option.bind (generated ?a ?empty) tpch_dists_size = Some 2" by simp
  note g2 = generated_collisions
  have t2: "tpch_dists_size (utf8 (render (lit ''dists.dss'') (lit ''TPCH_DISTS_100000'') (collisions 99999 @ [LF]))) = None"
    by (rule symbols_of_unread_unit(3) [OF read_unit_collisions])
  note g3 = generated_comment_closed
  have t3: "tpch_dists_size ''/* Auto-generated from d*/dists.dss. */\<newline>#include <cstddef>\<newline>\<newline>extern \"C\" {\<newline>extern const char tpch_dists_data[] = R\"TPCH_DISTS(\<newline>x\<newline>)TPCH_DISTS\";\<newline>extern const size_t tpch_dists_size = sizeof(tpch_dists_data) - 1;\<newline>}  // extern \"C\"\<newline>'' = None"
    by (rule symbols_of_unread_unit(3) [OF read_unit_comment_closed])
  have g4: "generated \<lparr>args_input = lit ''dists.dss'', args_output = lit ''out.cc'', args_label = Some (lit ''d*'' @ [0x5C, LF] @ lit ''/x'')\<rparr>
              [lit ''dists.dss'' \<mapsto> ''x\<newline>'']
            = Some (utf8 (render (lit ''d*'' @ [0x5C, LF] @ lit ''/x'') (lit ''TPCH_DISTS'') (lit ''x\<newline>'')))"
    by (rule generated_comment_spliced) simp
  have t4: "tpch_dists_size (utf8 (render (lit ''d*'' @ [0x5C, LF] @ lit ''/x'') (lit ''TPCH_DISTS'') (lit ''x\<newline>''))) = None"
    by (rule symbols_of_unread_unit(3), rule read_unit_comment_spliced) simp
  have g5: "generated \<lparr>args_input = lit ''dists.dss'', args_output = lit ''out.cc'', args_label = Some (lit ''d*'' @ [0x5C, CR] @ lit ''/x'')\<rparr>
              [lit ''dists.dss'' \<mapsto> ''x\<newline>'']
            = Some (utf8 (render (lit ''d*'' @ [0x5C, CR] @ lit ''/x'') (lit ''TPCH_DISTS'') (lit ''x\<newline>'')))"
    by (rule generated_comment_spliced) simp
  have t5: "tpch_dists_size (utf8 (render (lit ''d*'' @ [0x5C, CR] @ lit ''/x'') (lit ''TPCH_DISTS'') (lit ''x\<newline>''))) = None"
    by (rule symbols_of_unread_unit(3), rule read_unit_comment_spliced) simp
  from u h u0 h0 g2 t2 g3 t3 g4 t4 g5 t5 show ?thesis by (intro conjI)
qed

end
